theory Spec2Isabelle
  imports Main
begin

section \<open>Package game: the board engine\<close>

text \<open>
  The constants of package \<open>game\<close>. Cells, players, rows and columns are Go \<open>int\<close>s; no
  arithmetic on them comes near the 64-bit bounds, so they are modelled as \<open>int\<close>.
\<close>

abbreviation (input) Rows :: int where "Rows \<equiv> 6"
abbreviation (input) Columns :: int where "Columns \<equiv> 7"
abbreviation (input) Empty :: int where "Empty \<equiv> 0"
abbreviation (input) Player1 :: int where "Player1 \<equiv> 1"
abbreviation (input) Player2 :: int where "Player2 \<equiv> 2"

text \<open>
  \<open>type Board [Rows][Columns]int\<close>: a fixed array, copied by value. It is a function from
  row and column to the cell; the program reads and writes it only at rows \<open>0..5\<close> and
  columns \<open>0..6\<close>, and so does the model.
\<close>

type_synonym Board = "int \<Rightarrow> int \<Rightarrow> int"

record Move =
  Player :: int
  Column :: int
  Row :: int

text \<open>
  \<open>type Game struct\<close>. The field \<open>Moves\<close> is a slice; its type is a parameter of the
  record: in the value model below it is the list of moves the slice holds
  (\<open>Move list Game\<close>), in the memory model of the last section it is a slice header
  pointing into a store of backing arrays.
\<close>

record 'm Game =
  ID :: string
  Board :: Board
  CurrentPlayer :: int
  Player1ID :: string
  Player2ID :: string
  Player1Name :: string
  Player2Name :: string
  IsBot :: bool
  Winner :: int
  IsOver :: bool
  IsDraw :: bool
  Moves :: 'm
  StartTime :: int
  EndTime :: int

text \<open>\<open>Board{}\<close> is the zero value of the array: every cell is \<open>Empty\<close>.\<close>

definition zero_Board :: Board where
  "zero_Board = (\<lambda>r c. 0)"

definition NewGame ::
  "string \<Rightarrow> string \<Rightarrow> string \<Rightarrow> string \<Rightarrow> string \<Rightarrow> bool \<Rightarrow> Move list Game" where
  "NewGame gid p1ID p1Name p2ID p2Name isBot =
     \<lparr>ID = gid, Board = zero_Board, CurrentPlayer = Player1,
      Player1ID = p1ID, Player2ID = p2ID, Player1Name = p1Name, Player2Name = p2Name,
      IsBot = isBot, Winner = 0, IsOver = False, IsDraw = False, Moves = [],
      StartTime = 0, EndTime = 0\<rparr>"

text \<open>\<open>g.Board[row][column] = v\<close>.\<close>

definition set_cell :: "Board \<Rightarrow> int \<Rightarrow> int \<Rightarrow> int \<Rightarrow> Board" where
  "set_cell b row column v = b(row := (b row)(column := v))"

subsection \<open>CheckWin\<close>

text \<open>
  The four scans of \<open>CheckWin\<close>. Each loop is a recursive function of its loop variables;
  \<open>count\<close> is the running length of the current run of \<open>player\<close> cells.
\<close>

function win_row :: "Board \<Rightarrow> int \<Rightarrow> int \<Rightarrow> int \<Rightarrow> int \<Rightarrow> bool" where
  "win_row b player row c count =
     (if c < Columns then
        (if b row c = player then
           (if count + 1 \<ge> 4 then True else win_row b player row (c + 1) (count + 1))
         else win_row b player row (c + 1) 0)
      else False)"
  by pat_completeness auto
termination
  by (relation "measure (\<lambda>(b, player, row, c, count). nat (Columns - c))") auto

function win_col :: "Board \<Rightarrow> int \<Rightarrow> int \<Rightarrow> int \<Rightarrow> int \<Rightarrow> bool" where
  "win_col b player col r count =
     (if r < Rows then
        (if b r col = player then
           (if count + 1 \<ge> 4 then True else win_col b player col (r + 1) (count + 1))
         else win_col b player col (r + 1) 0)
      else False)"
  by pat_completeness auto
termination
  by (relation "measure (\<lambda>(b, player, col, r, count). nat (Rows - r))") auto

text \<open>Walking back to the start of the falling diagonal through \<open>(row, col)\<close>.\<close>

function diag_start :: "int \<Rightarrow> int \<Rightarrow> int \<times> int" where
  "diag_start startRow startCol =
     (if startRow > 0 \<and> startCol > 0 then diag_start (startRow - 1) (startCol - 1)
      else (startRow, startCol))"
  by pat_completeness auto
termination
  by (relation "measure (\<lambda>(startRow, startCol). nat startRow)") auto

function win_diag :: "Board \<Rightarrow> int \<Rightarrow> int \<Rightarrow> int \<Rightarrow> int \<Rightarrow> bool" where
  "win_diag b player startRow startCol count =
     (if startRow < Rows \<and> startCol < Columns then
        (if b startRow startCol = player then
           (if count + 1 \<ge> 4 then True
            else win_diag b player (startRow + 1) (startCol + 1) (count + 1))
         else win_diag b player (startRow + 1) (startCol + 1) 0)
      else False)"
  by pat_completeness auto
termination
  by (relation "measure (\<lambda>(b, player, startRow, startCol, count). nat (Rows - startRow))") auto

text \<open>Walking back to the start of the rising diagonal through \<open>(row, col)\<close>.\<close>

function anti_start :: "int \<Rightarrow> int \<Rightarrow> int \<times> int" where
  "anti_start startRow startCol =
     (if startRow > 0 \<and> startCol < Columns - 1 then anti_start (startRow - 1) (startCol + 1)
      else (startRow, startCol))"
  by pat_completeness auto
termination
  by (relation "measure (\<lambda>(startRow, startCol). nat startRow)") auto

function win_anti :: "Board \<Rightarrow> int \<Rightarrow> int \<Rightarrow> int \<Rightarrow> int \<Rightarrow> bool" where
  "win_anti b player startRow startCol count =
     (if startRow < Rows \<and> startCol \<ge> 0 then
        (if b startRow startCol = player then
           (if count + 1 \<ge> 4 then True
            else win_anti b player (startRow + 1) (startCol - 1) (count + 1))
         else win_anti b player (startRow + 1) (startCol - 1) 0)
      else False)"
  by pat_completeness auto
termination
  by (relation "measure (\<lambda>(b, player, startRow, startCol, count). nat (Rows - startRow))") auto

definition CheckWin :: "'m Game \<Rightarrow> int \<Rightarrow> int \<Rightarrow> bool" where
  "CheckWin g row col =
     (let player = Board g row col in
      if win_row (Board g) player row 0 0 then True
      else if win_col (Board g) player col 0 0 then True
      else if (case diag_start row col of
                 (startRow, startCol) \<Rightarrow> win_diag (Board g) player startRow startCol 0) then True
      else if (case anti_start row col of
                 (startRow, startCol) \<Rightarrow> win_anti (Board g) player startRow startCol 0) then True
      else False)"

subsection \<open>IsBoardFull, GetValidMoves\<close>

function full_from :: "Board \<Rightarrow> int \<Rightarrow> bool" where
  "full_from b c =
     (if c < Columns then (if b 0 c = Empty then False else full_from b (c + 1)) else True)"
  by pat_completeness auto
termination
  by (relation "measure (\<lambda>(b, c). nat (Columns - c))") auto

definition IsBoardFull :: "'m Game \<Rightarrow> bool" where
  "IsBoardFull g = full_from (Board g) 0"

function valid_from :: "Board \<Rightarrow> int \<Rightarrow> int list \<Rightarrow> int list" where
  "valid_from b c moves =
     (if c < Columns then valid_from b (c + 1) (if b 0 c = Empty then moves @ [c] else moves)
      else moves)"
  by pat_completeness auto
termination
  by (relation "measure (\<lambda>(b, c, moves). nat (Columns - c))") auto

definition GetValidMoves :: "'m Game \<Rightarrow> int list" where
  "GetValidMoves g = valid_from (Board g) 0 []"

subsection \<open>MakeMove\<close>

text \<open>
  The search for the lowest empty row of a column: \<open>r\<close> runs from \<open>Rows - 1\<close> down to \<open>0\<close>,
  and the result is \<open>-1\<close> when no cell of the column is \<open>Empty\<close>.
\<close>

function find_row :: "Board \<Rightarrow> int \<Rightarrow> int \<Rightarrow> int" where
  "find_row b column r =
     (if r \<ge> 0 then (if b r column = Empty then r else find_row b column (r - 1)) else - 1)"
  by pat_completeness auto
termination
  by (relation "measure (\<lambda>(b, column, r). nat (r + 1))") auto

text \<open>
  \<open>MakeMove\<close> mutates the receiver and returns \<open>(row, ok)\<close>; the model returns the row, the
  flag and the game after the call.
\<close>

definition MakeMove :: "Move list Game \<Rightarrow> int \<Rightarrow> int \<times> bool \<times> Move list Game" where
  "MakeMove g column =
     (if column < 0 \<or> column \<ge> Columns then (- 1, False, g)
      else
        let row = find_row (Board g) column (Rows - 1) in
        if row = - 1 then (- 1, False, g)
        else
          let g1 = g\<lparr>Board := set_cell (Board g) row column (CurrentPlayer g)\<rparr>;
              move = \<lparr>Player = CurrentPlayer g1, Column = column, Row = row\<rparr>;
              g2 = g1\<lparr>Moves := Moves g1 @ [move]\<rparr>
          in
            if CheckWin g2 row column then
              (row, True, g2\<lparr>Winner := CurrentPlayer g2, IsOver := True\<rparr>)
            else if IsBoardFull g2 then
              (row, True, g2\<lparr>IsDraw := True, IsOver := True\<rparr>)
            else
              (row, True,
               g2\<lparr>CurrentPlayer := (if CurrentPlayer g2 = Player1 then Player2 else Player1)\<rparr>))"

subsection \<open>Clone\<close>

text \<open>
  \<open>Clone\<close> builds a new \<open>Game\<close> whose board starts as the zero value and is filled cell by
  cell, and whose move list is a fresh slice of the same length with the moves copied in.
\<close>

function copy_cols :: "Board \<Rightarrow> Board \<Rightarrow> int \<Rightarrow> int \<Rightarrow> Board" where
  "copy_cols src dst r c =
     (if c < Columns then copy_cols src (set_cell dst r c (src r c)) r (c + 1) else dst)"
  by pat_completeness auto
termination
  by (relation "measure (\<lambda>(src, dst, r, c). nat (Columns - c))") auto

function copy_rows :: "Board \<Rightarrow> Board \<Rightarrow> int \<Rightarrow> Board" where
  "copy_rows src dst r =
     (if r < Rows then copy_rows src (copy_cols src dst r 0) (r + 1) else dst)"
  by pat_completeness auto
termination
  by (relation "measure (\<lambda>(src, dst, r). nat (Rows - r))") auto

definition Clone :: "Move list Game \<Rightarrow> Move list Game" where
  "Clone g =
     \<lparr>ID = ID g, Board = copy_rows (Board g) zero_Board 0, CurrentPlayer = CurrentPlayer g,
      Player1ID = Player1ID g, Player2ID = Player2ID g,
      Player1Name = Player1Name g, Player2Name = Player2Name g,
      IsBot = IsBot g, Winner = Winner g, IsOver = IsOver g, IsDraw = IsDraw g,
      Moves = take (length (Moves g)) (Moves g),
      StartTime = StartTime g, EndTime = EndTime g\<rparr>"

section \<open>Package bot: the search agent\<close>

abbreviation (input) MaxDepth :: nat where "MaxDepth \<equiv> 6"
abbreviation (input) WinScore :: int where "WinScore \<equiv> 100000"
abbreviation (input) ThreeScore :: int where "ThreeScore \<equiv> 100"
abbreviation (input) TwoScore :: int where "TwoScore \<equiv> 10"
abbreviation (input) CenterBonus :: int where "CenterBonus \<equiv> 3"
abbreviation (input) MinInt32 :: int where "MinInt32 \<equiv> - 2147483648"
abbreviation (input) MaxInt32 :: int where "MaxInt32 \<equiv> 2147483647"

text \<open>\<open>type Bot struct { Player int }\<close>.\<close>

record Bot =
  BotPlayer :: int

definition abs_int :: "int \<Rightarrow> int" where
  "abs_int x = (if x < 0 then - x else x)"

definition max_int :: "int \<Rightarrow> int \<Rightarrow> int" where
  "max_int a b = (if a > b then a else b)"

definition min_int :: "int \<Rightarrow> int \<Rightarrow> int" where
  "min_int a b = (if a < b then a else b)"

text \<open>
  A counting loop \<open>for x := lo; x < hi; x++ { body }\<close> over an accumulator. The loops of
  \<open>evaluate\<close> and \<open>evaluateLines\<close> have this shape, with \<open>score\<close> as the accumulator; a bound
  written \<open>x <= n\<close> in the source is \<open>x < n + 1\<close> here.
\<close>

function for_loop :: "(int \<Rightarrow> 'a \<Rightarrow> 'a) \<Rightarrow> int \<Rightarrow> int \<Rightarrow> 'a \<Rightarrow> 'a" where
  "for_loop body x hi acc = (if x < hi then for_loop body (x + 1) hi (body x acc) else acc)"
  by pat_completeness auto
termination
  by (relation "measure (\<lambda>(body, x, hi, acc). nat (hi - x))") auto

text \<open>The body of the loop of \<open>evaluateWindow\<close>: the three counters after cell \<open>i\<close>.\<close>

definition count_cell ::
  "Bot \<Rightarrow> 'm Game \<Rightarrow> int \<Rightarrow> int \<Rightarrow> int \<Rightarrow> int \<Rightarrow> int \<Rightarrow> int \<Rightarrow> int \<times> int \<times> int \<Rightarrow> int \<times> int \<times> int" where
  "count_cell b g startRow startCol rowDir colDir opponent i counts =
     (case counts of (botCount, oppCount, emptyCount) \<Rightarrow>
        let r = startRow + i * rowDir; c = startCol + i * colDir in
        if Board g r c = BotPlayer b then (botCount + 1, oppCount, emptyCount)
        else if Board g r c = opponent then (botCount, oppCount + 1, emptyCount)
        else (botCount, oppCount, emptyCount + 1))"

definition evaluateWindow :: "Bot \<Rightarrow> 'm Game \<Rightarrow> int \<Rightarrow> int \<Rightarrow> int \<Rightarrow> int \<Rightarrow> int \<Rightarrow> int" where
  "evaluateWindow b g startRow startCol rowDir colDir opponent =
     (case for_loop (count_cell b g startRow startCol rowDir colDir opponent) 0 4 (0, 0, 0) of
        (botCount, oppCount, emptyCount) \<Rightarrow>
          if botCount > 0 \<and> oppCount > 0 then 0
          else if botCount = 3 \<and> emptyCount = 1 then ThreeScore
          else if botCount = 2 \<and> emptyCount = 2 then TwoScore
          else if oppCount = 3 \<and> emptyCount = 1 then - ThreeScore * 2
          else if oppCount = 2 \<and> emptyCount = 2 then - TwoScore
          else 0)"

definition evaluateLines :: "Bot \<Rightarrow> 'm Game \<Rightarrow> int \<Rightarrow> int" where
  "evaluateLines b g opponent =
     (let score = 0;
          score = for_loop (\<lambda>r. for_loop (\<lambda>c score. score + evaluateWindow b g r c 0 1 opponent)
                                0 (Columns - 4 + 1)) 0 Rows score;
          score = for_loop (\<lambda>c. for_loop (\<lambda>r score. score + evaluateWindow b g r c 1 0 opponent)
                                0 (Rows - 4 + 1)) 0 Columns score;
          score = for_loop (\<lambda>r. for_loop (\<lambda>c score. score + evaluateWindow b g r c 1 1 opponent)
                                0 (Columns - 4 + 1)) 0 (Rows - 4 + 1) score;
          score = for_loop (\<lambda>r. for_loop (\<lambda>c score. score + evaluateWindow b g r c 1 (- 1) opponent)
                                3 Columns) 0 (Rows - 4 + 1) score
      in score)"

definition evaluate :: "Bot \<Rightarrow> 'm Game \<Rightarrow> int \<Rightarrow> int" where
  "evaluate b g opponent =
     (if Winner g = BotPlayer b then WinScore
      else if Winner g = opponent then - WinScore
      else if IsDraw g then 0
      else
        let score = 0;
            score = for_loop (\<lambda>c. for_loop (\<lambda>r score.
                        if Board g r c = BotPlayer b then score + (CenterBonus - abs_int (c - 3))
                        else if Board g r c = opponent then score - (CenterBonus - abs_int (c - 3))
                        else score) 0 Rows) 0 Columns score;
            score = score + evaluateLines b g opponent
        in score)"

text \<open>
  \<open>minimax\<close> with its two loops over the valid moves. \<open>depth\<close> is a Go \<open>int\<close> that starts at
  \<open>MaxDepth - 1\<close> and is tested with \<open>depth == 0\<close>; it is a \<open>nat\<close> here, and the loops take
  the depth \<open>depth - 1\<close> of the recursive calls. A \<open>break\<close> returns the running score.
\<close>

function minimax :: "Bot \<Rightarrow> Move list Game \<Rightarrow> nat \<Rightarrow> int \<Rightarrow> int \<Rightarrow> bool \<Rightarrow> int \<Rightarrow> int"
  and max_loop :: "Bot \<Rightarrow> Move list Game \<Rightarrow> nat \<Rightarrow> int list \<Rightarrow> int \<Rightarrow> int \<Rightarrow> int \<Rightarrow> int \<Rightarrow> int"
  and min_loop :: "Bot \<Rightarrow> Move list Game \<Rightarrow> nat \<Rightarrow> int list \<Rightarrow> int \<Rightarrow> int \<Rightarrow> int \<Rightarrow> int \<Rightarrow> int"
where
  "minimax b g 0 alpha beta isMaximizing opponent = evaluate b g opponent"
| "minimax b g (Suc d) alpha beta isMaximizing opponent =
     (if IsOver g then evaluate b g opponent
      else
        let validMoves = GetValidMoves g in
        if length validMoves = 0 then 0
        else if isMaximizing then max_loop b g d validMoves alpha beta opponent MinInt32
        else min_loop b g d validMoves alpha beta opponent MaxInt32)"
| "max_loop b g d [] alpha beta opponent maxScore = maxScore"
| "max_loop b g d (col # cols) alpha beta opponent maxScore =
     (case MakeMove ((Clone g)\<lparr>CurrentPlayer := BotPlayer b\<rparr>) col of
        (row, valid, clone) \<Rightarrow>
          if \<not> valid then max_loop b g d cols alpha beta opponent maxScore
          else
            let score = minimax b clone d alpha beta False opponent;
                maxScore = max_int maxScore score;
                alpha = max_int alpha score
            in if beta \<le> alpha then maxScore
               else max_loop b g d cols alpha beta opponent maxScore)"
| "min_loop b g d [] alpha beta opponent minScore = minScore"
| "min_loop b g d (col # cols) alpha beta opponent minScore =
     (case MakeMove ((Clone g)\<lparr>CurrentPlayer := opponent\<rparr>) col of
        (row, valid, clone) \<Rightarrow>
          if \<not> valid then min_loop b g d cols alpha beta opponent minScore
          else
            let score = minimax b clone d alpha beta True opponent;
                minScore = min_int minScore score;
                beta = min_int beta score
            in if beta \<le> alpha then minScore
               else min_loop b g d cols alpha beta opponent minScore)"
  by pat_completeness auto
termination
  by (relation "inv_image (less_than <*lex*> less_than) (\<lambda>x. case x of
          Inl (b, g, depth, rest) \<Rightarrow> (2 * depth, 0)
        | Inr (Inl (b, g, d, cols, rest)) \<Rightarrow> (2 * d + 1, length cols)
        | Inr (Inr (b, g, d, cols, rest)) \<Rightarrow> (2 * d + 1, length cols))") auto

text \<open>
  The first two loops of \<open>GetMove\<close>: the first valid column on which \<open>player\<close>, moving on a
  clone, is the winner of the clone after the move. The source runs it for \<open>b.Player\<close> and
  then for \<open>opponent\<close>.
\<close>

fun first_win :: "Move list Game \<Rightarrow> int \<Rightarrow> int list \<Rightarrow> int option" where
  "first_win g player [] = None"
| "first_win g player (col # cols) =
     (case MakeMove ((Clone g)\<lparr>CurrentPlayer := player\<rparr>) col of
        (row, valid, clone) \<Rightarrow>
          if valid \<and> Winner clone = player then Some col else first_win g player cols)"

text \<open>The third loop: the best score and the columns that reach it.\<close>

fun best_loop ::
  "Bot \<Rightarrow> Move list Game \<Rightarrow> int \<Rightarrow> int list \<Rightarrow> int \<Rightarrow> int list \<Rightarrow> int \<times> int list" where
  "best_loop b g opponent [] bestScore bestMoves = (bestScore, bestMoves)"
| "best_loop b g opponent (col # cols) bestScore bestMoves =
     (case MakeMove ((Clone g)\<lparr>CurrentPlayer := BotPlayer b\<rparr>) col of
        (row, valid, clone) \<Rightarrow>
          if \<not> valid then best_loop b g opponent cols bestScore bestMoves
          else
            let score = minimax b clone (MaxDepth - 1) MinInt32 MaxInt32 False opponent in
            if score > bestScore then best_loop b g opponent cols score [col]
            else if score = bestScore then best_loop b g opponent cols bestScore (bestMoves @ [col])
            else best_loop b g opponent cols bestScore bestMoves)"

fun center_pref :: "int list \<Rightarrow> int list \<Rightarrow> int list" where
  "center_pref [] centerPreference = centerPreference"
| "center_pref (col # cols) centerPreference =
     center_pref cols
       (if col = 3 then centerPreference @ [col, col, col]
        else if col = 2 \<or> col = 4 then centerPreference @ [col, col]
        else centerPreference @ [col])"

text \<open>
  \<open>rand.Intn(n)\<close> returns some index below \<open>n\<close>. The generator is outside the program, so
  \<open>GetMove\<close> takes the number \<open>rnd\<close> it draws, and the index is \<open>rnd mod n\<close>: every index below
  \<open>n\<close> is the result for some \<open>rnd\<close>.
\<close>

definition Intn :: "nat \<Rightarrow> nat \<Rightarrow> nat" where
  "Intn rnd n = rnd mod n"

definition GetMove :: "Bot \<Rightarrow> Move list Game \<Rightarrow> nat \<Rightarrow> int" where
  "GetMove b g rnd =
     (let opponent = (if BotPlayer b = Player1 then Player2 else Player1) in
      case first_win g (BotPlayer b) (GetValidMoves g) of
        Some col \<Rightarrow> col
      | None \<Rightarrow>
         (case first_win g opponent (GetValidMoves g) of
            Some col \<Rightarrow> col
          | None \<Rightarrow>
             (case best_loop b g opponent (GetValidMoves g) MinInt32 [] of
                (bestScore, bestMoves) \<Rightarrow>
                  if length bestMoves = 0 then
                    (let validMoves = GetValidMoves g in
                     if length validMoves > 0 then validMoves ! Intn rnd (length validMoves)
                     else 3)
                  else
                    let centerPreference = center_pref bestMoves [] in
                    centerPreference ! Intn rnd (length centerPreference))))"

section \<open>The hub, matchmaking and the server's handlers\<close>

text \<open>
  \<open>type Client struct\<close> and \<open>type Message struct\<close> of package \<open>websocket\<close>, without the
  connection, the channel and the mutex of a client and without the raw \<open>Data\<close> of a message.
  The fields carry a prefix where \<open>Game\<close> and \<open>Move\<close> have a field of the same name.
\<close>

record Client =
  cID :: string
  cUsername :: string
  cGameID :: string

record Message =
  mType :: string
  mGameID :: string
  mUsername :: string
  mColumn :: int
  mRow :: int
  mPlayer :: int
  mBoard :: "Board option"
  mWinner :: string
  mReason :: string
  mOpponent :: string
  mYourTurn :: bool
  mMessage :: string
  mIsBot :: bool

text \<open>The zero value \<open>Message{}\<close>; a composite literal sets some of its fields.\<close>

definition zero_Message :: Message where
  "zero_Message =
     \<lparr>mType = [], mGameID = [], mUsername = [], mColumn = 0, mRow = 0, mPlayer = 0,
      mBoard = None, mWinner = [], mReason = [], mOpponent = [], mYourTurn = False,
      mMessage = [], mIsBot = False\<rparr>"

text \<open>
  The state the handlers of \<open>main.go\<close> and \<open>startGame\<close> work on: the client objects (the
  \<open>*Client\<close> pointers, keyed by the client's ID), the maps \<open>Games\<close> and \<open>PlayerToGame\<close> of the
  hub, the map \<open>BotPlayers\<close> of the server, and what the handlers emit: the calls of
  \<open>Hub.SendToClient\<close> and the messages put on the channel \<open>Hub.Broadcast\<close>, oldest first.
  A \<open>*Game\<close> in \<open>Games\<close> is the game object itself: a handler that mutates it writes it
  back under its ID. Each handler runs as one step; the Kafka producer, the database and
  the disconnect timers are outside the model.
\<close>

record Server =
  Clients :: "string \<rightharpoonup> Client"
  Games :: "string \<rightharpoonup> Move list Game"
  PlayerToGame :: "string \<rightharpoonup> string"
  BotPlayers :: "string \<rightharpoonup> Bot"
  Sent :: "(string \<times> Message) list"
  Broadcast :: "Message list"

definition NewServer :: Server where
  "NewServer =
     \<lparr>Clients = Map.empty, Games = Map.empty, PlayerToGame = Map.empty,
      BotPlayers = Map.empty, Sent = [], Broadcast = []\<rparr>"

definition SendToClient :: "string \<Rightarrow> Message \<Rightarrow> Server \<Rightarrow> Server" where
  "SendToClient clientID msg s = s\<lparr>Sent := Sent s @ [(clientID, msg)]\<rparr>"

definition SetGame :: "string \<Rightarrow> Move list Game \<Rightarrow> Server \<Rightarrow> Server" where
  "SetGame gameID g s = s\<lparr>Games := (Games s)(gameID \<mapsto> g)\<rparr>"

text \<open>\<open>GetPlayerGame\<close> reads a Go map: a missing key gives the empty string.\<close>

definition GetPlayerGame :: "Server \<Rightarrow> string \<Rightarrow> string" where
  "GetPlayerGame s playerID = (case PlayerToGame s playerID of None \<Rightarrow> [] | Some gameID \<Rightarrow> gameID)"

definition SetPlayerGame :: "string \<Rightarrow> string \<Rightarrow> Server \<Rightarrow> Server" where
  "SetPlayerGame playerID gameID s = s\<lparr>PlayerToGame := (PlayerToGame s)(playerID \<mapsto> gameID)\<rparr>"

definition RemovePlayerGame :: "string \<Rightarrow> Server \<Rightarrow> Server" where
  "RemovePlayerGame playerID s = s\<lparr>PlayerToGame := (PlayerToGame s)(playerID := None)\<rparr>"

text \<open>\<open>client.GameID = gameID\<close> and \<open>client.Username = username\<close> on the client object.\<close>

definition set_client :: "Client \<Rightarrow> Server \<Rightarrow> Server" where
  "set_client c s = s\<lparr>Clients := (Clients s)(cID c \<mapsto> c)\<rparr>"

text \<open>
  \<open>MatchMaker.startGame\<close>. \<open>player2\<close> is \<open>None\<close> for the nil pointer of the bot fallback;
  \<open>gameID\<close> is the fresh UUID and \<open>now\<close> the clock reading. \<open>OnGameStart\<close> is the server's
  \<open>onGameStart\<close>, which records a bot for a bot game.
\<close>

definition onGameStart :: "Move list Game \<Rightarrow> Server \<Rightarrow> Server" where
  "onGameStart g s =
     (if IsBot g then s\<lparr>BotPlayers := (BotPlayers s)(ID g \<mapsto> \<lparr>BotPlayer = Player2\<rparr>)\<rparr> else s)"

definition startGame :: "Client \<Rightarrow> Client option \<Rightarrow> bool \<Rightarrow> string \<Rightarrow> int \<Rightarrow> Server \<Rightarrow> Server" where
  "startGame player1 player2 isBot gameID now s =
     (let p2ID = (case player2 of Some p2 \<Rightarrow> cID p2 | None \<Rightarrow> ''bot-'' @ gameID);
          p2Name = (case player2 of Some p2 \<Rightarrow> cUsername p2 | None \<Rightarrow> ''Bot'');
          newGame = NewGame gameID (cID player1) (cUsername player1) p2ID p2Name isBot;
          newGame = newGame\<lparr>StartTime := now\<rparr>;
          s = SetGame gameID newGame s;
          s = SetPlayerGame (cID player1) gameID s;
          s = set_client (player1\<lparr>cGameID := gameID\<rparr>) s;
          s = (case player2 of
                 Some p2 \<Rightarrow> set_client (p2\<lparr>cGameID := gameID\<rparr>) (SetPlayerGame (cID p2) gameID s)
               | None \<Rightarrow> s);
          s = SendToClient (cID player1)
                (zero_Message\<lparr>mType := ''game_start'', mGameID := gameID, mOpponent := p2Name,
                   mYourTurn := True, mIsBot := isBot, mPlayer := Player1\<rparr>) s;
          s = (case player2 of
                 Some p2 \<Rightarrow>
                   SendToClient (cID p2)
                     (zero_Message\<lparr>mType := ''game_start'', mGameID := gameID,
                        mOpponent := cUsername player1, mYourTurn := False, mIsBot := False,
                        mPlayer := Player2\<rparr>) s
               | None \<Rightarrow> s)
      in onGameStart newGame s)"

text \<open>
  \<open>Server.endGame\<close> on the game registered under \<open>gameID\<close>; \<open>now\<close> is the clock reading
  stored in \<open>EndTime\<close>.
\<close>

definition endGame :: "string \<Rightarrow> int \<Rightarrow> Server \<Rightarrow> Server" where
  "endGame gameID now s =
     (case Games s gameID of
        None \<Rightarrow> s
      | Some g0 \<Rightarrow>
          let g = g0\<lparr>EndTime := now\<rparr>;
              s = SetGame gameID g s;
              winnerName = (if IsDraw g then [] else if Winner g = Player1 then Player1Name g
                            else if Winner g = Player2 then Player2Name g else []);
              reason = (if IsDraw g then ''draw'' else ''connect4'');
              s = s\<lparr>Broadcast := Broadcast s @
                     [zero_Message\<lparr>mType := ''game_end'', mGameID := ID g, mWinner := winnerName,
                        mReason := reason\<rparr>]\<rparr>;
              s = s\<lparr>BotPlayers := (BotPlayers s)(ID g := None)\<rparr>;
              s = RemovePlayerGame (Player1ID g) s;
              s = (if \<not> IsBot g then RemovePlayerGame (Player2ID g) s else s)
          in s)"

definition error_Message :: "string \<Rightarrow> Message" where
  "error_Message text = zero_Message\<lparr>mType := ''error'', mMessage := text\<rparr>"

text \<open>
  \<open>Server.handleMove\<close>. The bot's reply runs in a goroutine of its own (\<open>go s.makeBotMove(g)\<close>)
  and is the separate step \<open>makeBotMove\<close>.
\<close>

definition handleMove :: "Client \<Rightarrow> Message \<Rightarrow> int \<Rightarrow> Server \<Rightarrow> Server" where
  "handleMove client msg now s =
     (let gameID = cGameID client in
      if gameID = [] then SendToClient (cID client) (error_Message ''Not in a game'') s
      else
        case Games s gameID of
          None \<Rightarrow> SendToClient (cID client) (error_Message ''Game not found or already over'') s
        | Some g \<Rightarrow>
            if IsOver g then
              SendToClient (cID client) (error_Message ''Game not found or already over'') s
            else
              let isPlayer1 = (Player1ID g = cID client \<or> Player1Name g = cUsername client);
                  isPlayer2 = (Player2ID g = cID client \<or> Player2Name g = cUsername client)
              in
                if \<not> isPlayer1 \<and> \<not> isPlayer2 then
                  SendToClient (cID client) (error_Message ''You are not a player in this game'') s
                else
                  let expectedPlayer = (if isPlayer2 then Player2 else Player1) in
                  if CurrentPlayer g \<noteq> expectedPlayer then
                    SendToClient (cID client) (error_Message ''Not your turn'') s
                  else
                    case MakeMove g (mColumn msg) of
                      (row, valid, g') \<Rightarrow>
                        if \<not> valid then
                          SendToClient (cID client) (error_Message ''Invalid move'') s
                        else
                          let s = SetGame gameID g' s;
                              s = s\<lparr>Broadcast := Broadcast s @
                                     [zero_Message\<lparr>mType := ''move'', mGameID := gameID,
                                        mColumn := mColumn msg, mRow := row,
                                        mPlayer := expectedPlayer, mBoard := Some (Board g')\<rparr>]\<rparr>
                          in if IsOver g' then endGame gameID now s else s)"

text \<open>\<open>Server.makeBotMove\<close> on the game registered under \<open>gameID\<close>; \<open>rnd\<close> is the bot's draw.\<close>

definition makeBotMove :: "string \<Rightarrow> nat \<Rightarrow> int \<Rightarrow> Server \<Rightarrow> Server" where
  "makeBotMove gameID rnd now s =
     (case Games s gameID of
        None \<Rightarrow> s
      | Some g \<Rightarrow>
          let botPlayer = (case BotPlayers s (ID g) of
                             Some b \<Rightarrow> b | None \<Rightarrow> \<lparr>BotPlayer = Player2\<rparr>);
              s = s\<lparr>BotPlayers := (BotPlayers s)(ID g \<mapsto> botPlayer)\<rparr>;
              column = GetMove botPlayer g rnd
          in case MakeMove g column of
               (row, valid, g') \<Rightarrow>
                 if \<not> valid then s
                 else
                   let s = SetGame gameID g' s;
                       s = s\<lparr>Broadcast := Broadcast s @
                              [zero_Message\<lparr>mType := ''move'', mGameID := ID g', mColumn := column,
                                 mRow := row, mPlayer := Player2, mBoard := Some (Board g')\<rparr>]\<rparr>
                   in if IsOver g' then endGame gameID now s else s)"

text \<open>\<open>Server.handleReconnect\<close>.\<close>

definition handleReconnect :: "Client \<Rightarrow> Message \<Rightarrow> Server \<Rightarrow> Server" where
  "handleReconnect client msg s =
     (let gameID = mGameID msg; username = mUsername msg in
      if gameID = [] \<or> username = [] then
        SendToClient (cID client)
          (error_Message ''Game ID and username are required for reconnection'') s
      else
        case Games s gameID of
          None \<Rightarrow> SendToClient (cID client) (error_Message ''Game not found'') s
        | Some g \<Rightarrow>
            if IsOver g then SendToClient (cID client) (error_Message ''Game is already over'') s
            else if Player1Name g \<noteq> username \<and> Player2Name g \<noteq> username then
              SendToClient (cID client) (error_Message ''You are not a player in this game'') s
            else
              let s = set_client (client\<lparr>cUsername := username, cGameID := gameID\<rparr>) s;
                  s = SetPlayerGame (cID client) gameID s;
                  s = SetPlayerGame username gameID s;
                  yourTurn = ((CurrentPlayer g = Player1 \<and> Player1Name g = username) \<or>
                              (CurrentPlayer g = Player2 \<and> Player2Name g = username));
                  opponent = (if Player1Name g \<noteq> username then Player1Name g else Player2Name g);
                  playerNum = (if Player1Name g \<noteq> username then Player2 else Player1)
              in SendToClient (cID client)
                   (zero_Message\<lparr>mType := ''game_reconnected'', mGameID := gameID,
                      mBoard := Some (Board g), mOpponent := opponent, mYourTurn := yourTurn,
                      mPlayer := playerNum, mIsBot := IsBot g\<rparr>) s)"

section \<open>Games in memory: pointers, slices and Clone\<close>

text \<open>
  Whether a clone shares anything with its original is a question about memory, so this
  section places the games in a store. A \<open>*Game\<close> is the address of a \<open>Game\<close> struct; the
  struct holds the board by value (a Go array) and the moves as a slice header: the
  address of a backing array, a length and a capacity. Backing arrays live in the store
  as lists whose length is their capacity. Allocation takes the next unused address.
\<close>

record slice =
  s_ptr :: nat
  s_len :: nat
  s_cap :: nat

record Memory =
  objects :: "nat \<rightharpoonup> slice Game"
  arrays :: "nat \<rightharpoonup> Move list"
  next_addr :: nat

definition zero_Move :: Move where
  "zero_Move = \<lparr>Player = 0, Column = 0, Row = 0\<rparr>"

text \<open>\<open>make([]Move, n)\<close>: a fresh zeroed array of \<open>n\<close> moves and the slice over all of it.\<close>

definition make_moves :: "nat \<Rightarrow> Memory \<Rightarrow> slice \<times> Memory" where
  "make_moves n m =
     (\<lparr>s_ptr = next_addr m, s_len = n, s_cap = n\<rparr>,
      m\<lparr>arrays := (arrays m)(next_addr m \<mapsto> replicate n zero_Move),
        next_addr := next_addr m + 1\<rparr>)"

text \<open>The moves a slice holds: the first \<open>s_len\<close> cells of its backing array.\<close>

definition slice_moves :: "Memory \<Rightarrow> slice \<Rightarrow> Move list" where
  "slice_moves m sl = (case arrays m (s_ptr sl) of None \<Rightarrow> [] | Some xs \<Rightarrow> take (s_len sl) xs)"

text \<open>\<open>copy(dst, src)\<close> overwrites the first \<open>min(len(dst), len(src))\<close> cells of \<open>dst\<close>.\<close>

definition copy_moves :: "slice \<Rightarrow> slice \<Rightarrow> Memory \<Rightarrow> Memory" where
  "copy_moves dst src m =
     (case arrays m (s_ptr dst) of
        None \<Rightarrow> m
      | Some xs \<Rightarrow>
          let n = min (s_len dst) (s_len src) in
          m\<lparr>arrays := (arrays m)(s_ptr dst \<mapsto> take n (slice_moves m src) @ drop n xs)\<rparr>)"

text \<open>
  \<open>append(sl, x)\<close>: with spare capacity the move is written into the backing array in
  place and the new slice shares it; otherwise the moves are copied to a fresh, larger
  array. How much larger is the runtime's choice; the model doubles the capacity, and
  nothing below depends on the amount.
\<close>

definition append_move :: "slice \<Rightarrow> Move \<Rightarrow> Memory \<Rightarrow> slice \<times> Memory" where
  "append_move sl x m =
     (if s_len sl < s_cap sl then
        (sl\<lparr>s_len := s_len sl + 1\<rparr>,
         m\<lparr>arrays := (arrays m)(s_ptr sl \<mapsto>
              (case arrays m (s_ptr sl) of None \<Rightarrow> [] | Some xs \<Rightarrow> xs[s_len sl := x]))\<rparr>)
      else
        let newcap = max (2 * s_cap sl) (s_len sl + 1) in
        (\<lparr>s_ptr = next_addr m, s_len = s_len sl + 1, s_cap = newcap\<rparr>,
         m\<lparr>arrays := (arrays m)(next_addr m \<mapsto>
              slice_moves m sl @ [x] @ replicate (newcap - (s_len sl + 1)) zero_Move),
           next_addr := next_addr m + 1\<rparr>))"

text \<open>\<open>NewGame\<close> in memory: the struct and its empty move slice are allocated.\<close>

definition NewGame_m ::
  "string \<Rightarrow> string \<Rightarrow> string \<Rightarrow> string \<Rightarrow> string \<Rightarrow> bool \<Rightarrow> Memory \<Rightarrow> nat \<times> Memory" where
  "NewGame_m gid p1ID p1Name p2ID p2Name isBot m =
     (case make_moves 0 m of
        (sl, m) \<Rightarrow>
          (next_addr m,
           m\<lparr>objects := (objects m)(next_addr m \<mapsto>
                \<lparr>ID = gid, Board = zero_Board, CurrentPlayer = Player1,
                 Player1ID = p1ID, Player2ID = p2ID, Player1Name = p1Name, Player2Name = p2Name,
                 IsBot = isBot, Winner = 0, IsOver = False, IsDraw = False, Moves = sl,
                 StartTime = 0, EndTime = 0\<rparr>),
             next_addr := next_addr m + 1\<rparr>))"

text \<open>
  \<open>g.MakeMove(column)\<close> on the struct at address \<open>p\<close>. The result is \<open>None\<close> where the Go
  program panics (a nil or dangling receiver).
\<close>

definition MakeMove_m :: "nat \<Rightarrow> int \<Rightarrow> Memory \<Rightarrow> (int \<times> bool \<times> Memory) option" where
  "MakeMove_m p column m =
     (case objects m p of
        None \<Rightarrow> None
      | Some g \<Rightarrow>
          if column < 0 \<or> column \<ge> Columns then Some (- 1, False, m)
          else
            let row = find_row (Board g) column (Rows - 1) in
            if row = - 1 then Some (- 1, False, m)
            else
              let g1 = g\<lparr>Board := set_cell (Board g) row column (CurrentPlayer g)\<rparr>;
                  move = \<lparr>Player = CurrentPlayer g1, Column = column, Row = row\<rparr>
              in case append_move (Moves g1) move m of
                   (sl, m) \<Rightarrow>
                     let g2 = g1\<lparr>Moves := sl\<rparr> in
                     if CheckWin g2 row column then
                       Some (row, True,
                         m\<lparr>objects := (objects m)(p \<mapsto>
                              g2\<lparr>Winner := CurrentPlayer g2, IsOver := True\<rparr>)\<rparr>)
                     else if IsBoardFull g2 then
                       Some (row, True,
                         m\<lparr>objects := (objects m)(p \<mapsto> g2\<lparr>IsDraw := True, IsOver := True\<rparr>)\<rparr>)
                     else
                       Some (row, True,
                         m\<lparr>objects := (objects m)(p \<mapsto>
                              g2\<lparr>CurrentPlayer :=
                                   (if CurrentPlayer g2 = Player1 then Player2 else Player1)\<rparr>)\<rparr>))"

text \<open>
  \<open>g.Clone()\<close> on the struct at address \<open>p\<close>: a new struct, whose board is filled cell by
  cell and whose \<open>Moves\<close> is a new slice with the moves copied in. The result is the
  address of the clone.
\<close>

definition Clone_m :: "nat \<Rightarrow> Memory \<Rightarrow> (nat \<times> Memory) option" where
  "Clone_m p m =
     (case objects m p of
        None \<Rightarrow> None
      | Some g \<Rightarrow>
          let q = next_addr m;
              m = m\<lparr>next_addr := next_addr m + 1\<rparr>;
              board = copy_rows (Board g) zero_Board 0
          in case make_moves (s_len (Moves g)) m of
               (sl, m) \<Rightarrow>
                 let m = copy_moves sl (Moves g) m in
                 Some (q,
                   m\<lparr>objects := (objects m)(q \<mapsto>
                        \<lparr>ID = ID g, Board = board, CurrentPlayer = CurrentPlayer g,
                         Player1ID = Player1ID g, Player2ID = Player2ID g,
                         Player1Name = Player1Name g, Player2Name = Player2Name g,
                         IsBot = IsBot g, Winner = Winner g, IsOver = IsOver g,
                         IsDraw = IsDraw g, Moves = sl,
                         StartTime = StartTime g, EndTime = EndTime g\<rparr>)\<rparr>))"

text \<open>
  What a program can do to the game at an address besides \<open>MakeMove\<close>: assign the current
  player (as the bot does on its clones), a cell of the board, or a terminal field; and
  mutate the move list: overwrite a move, append one, or shorten the slice. An index out
  of range panics (\<open>None\<close>).
\<close>

datatype mutation =
  DoMakeMove int
  | SetCurrentPlayer int
  | SetCell int int int
  | SetWinner int
  | SetIsOver bool
  | SetIsDraw bool
  | SetMove nat Move
  | AppendMove Move
  | Reslice nat

definition update_object :: "nat \<Rightarrow> (slice Game \<Rightarrow> slice Game) \<Rightarrow> Memory \<Rightarrow> Memory option" where
  "update_object p f m =
     (case objects m p of None \<Rightarrow> None | Some g \<Rightarrow> Some (m\<lparr>objects := (objects m)(p \<mapsto> f g)\<rparr>))"

fun mutate :: "nat \<Rightarrow> mutation \<Rightarrow> Memory \<Rightarrow> Memory option" where
  "mutate p (DoMakeMove column) m = map_option (\<lambda>(row, ok, m'). m') (MakeMove_m p column m)"
| "mutate p (SetCurrentPlayer v) m = update_object p (\<lambda>g. g\<lparr>CurrentPlayer := v\<rparr>) m"
| "mutate p (SetCell r c v) m =
     (if 0 \<le> r \<and> r < Rows \<and> 0 \<le> c \<and> c < Columns
      then update_object p (\<lambda>g. g\<lparr>Board := set_cell (Board g) r c v\<rparr>) m else None)"
| "mutate p (SetWinner v) m = update_object p (\<lambda>g. g\<lparr>Winner := v\<rparr>) m"
| "mutate p (SetIsOver v) m = update_object p (\<lambda>g. g\<lparr>IsOver := v\<rparr>) m"
| "mutate p (SetIsDraw v) m = update_object p (\<lambda>g. g\<lparr>IsDraw := v\<rparr>) m"
| "mutate p (SetMove i x) m =
     (case objects m p of
        None \<Rightarrow> None
      | Some g \<Rightarrow>
          if i < s_len (Moves g) then
            Some (m\<lparr>arrays := (arrays m)(s_ptr (Moves g) \<mapsto>
                    (case arrays m (s_ptr (Moves g)) of None \<Rightarrow> [] | Some xs \<Rightarrow> xs[i := x]))\<rparr>)
          else None)"
| "mutate p (AppendMove x) m =
     (case objects m p of
        None \<Rightarrow> None
      | Some g \<Rightarrow>
          (case append_move (Moves g) x m of
             (sl, m) \<Rightarrow> Some (m\<lparr>objects := (objects m)(p \<mapsto> g\<lparr>Moves := sl\<rparr>)\<rparr>)))"
| "mutate p (Reslice n) m =
     (case objects m p of
        None \<Rightarrow> None
      | Some g \<Rightarrow>
          if n \<le> s_cap (Moves g) then
            Some (m\<lparr>objects := (objects m)(p \<mapsto> g\<lparr>Moves := (Moves g)\<lparr>s_len := n\<rparr>\<rparr>)\<rparr>)
          else None)"

fun mutate_all :: "nat \<Rightarrow> mutation list \<Rightarrow> Memory \<Rightarrow> Memory option" where
  "mutate_all p [] m = Some m"
| "mutate_all p (x # xs) m = (case mutate p x m of None \<Rightarrow> None | Some m' \<Rightarrow> mutate_all p xs m')"

text \<open>
  What is observable of the game at an address: the struct with the moves its slice
  holds.
\<close>

definition with_moves :: "'a Game \<Rightarrow> 'b \<Rightarrow> 'b Game" where
  "with_moves g ms =
     \<lparr>ID = ID g, Board = Board g, CurrentPlayer = CurrentPlayer g,
      Player1ID = Player1ID g, Player2ID = Player2ID g,
      Player1Name = Player1Name g, Player2Name = Player2Name g,
      IsBot = IsBot g, Winner = Winner g, IsOver = IsOver g, IsDraw = IsDraw g,
      Moves = ms, StartTime = StartTime g, EndTime = EndTime g\<rparr>"

definition observe :: "Memory \<Rightarrow> nat \<Rightarrow> Move list Game option" where
  "observe m p =
     (case objects m p of
        None \<Rightarrow> None
      | Some g \<Rightarrow> Some (with_moves g (slice_moves m (Moves g))))"

text \<open>
  The struct at \<open>p\<close> and the backing array of its moves are allocated: their addresses
  are below the next free one, and the slice lies within its array.
\<close>

definition allocated :: "Memory \<Rightarrow> nat \<Rightarrow> bool" where
  "allocated m p =
     (case objects m p of
        None \<Rightarrow> False
      | Some g \<Rightarrow>
          p < next_addr m \<and> s_ptr (Moves g) < next_addr m \<and> s_len (Moves g) \<le> s_cap (Moves g) \<and>
          (case arrays m (s_ptr (Moves g)) of
             None \<Rightarrow> False
           | Some xs \<Rightarrow> length xs = s_cap (Moves g)))"

definition empty_Memory :: Memory where
  "empty_Memory = \<lparr>objects = Map.empty, arrays = Map.empty, next_addr = 0\<rparr>"

text \<open>
  Two games in memory are separate when they are different structs whose move slices
  point to different backing arrays, the first of them allocated.
\<close>

definition separate :: "Memory \<Rightarrow> nat \<Rightarrow> nat \<Rightarrow> bool" where
  "separate m p q =
     (p \<noteq> q \<and>
      (case objects m p of
         None \<Rightarrow> False
       | Some gp \<Rightarrow>
           (case objects m q of
              None \<Rightarrow> False
            | Some gq \<Rightarrow>
                s_ptr (Moves gp) \<noteq> s_ptr (Moves gq) \<and> s_ptr (Moves gp) < next_addr m)))"

text \<open>
  A game in memory after three moves on column 3: its move slice has length 3 and
  capacity 4. And mutations of every kind, to be applied to its clone.
\<close>

definition three_moves :: "nat \<times> Memory" where
  "three_moves =
     (case NewGame_m ''g1'' ''c1'' ''alice'' ''c2'' ''bob'' False empty_Memory of
        (p, m) \<Rightarrow> (p, the (mutate_all p [DoMakeMove 3, DoMakeMove 3, DoMakeMove 3] m)))"

definition some_mutations :: "mutation list" where
  "some_mutations =
     [SetCurrentPlayer Player2, DoMakeMove 0, SetMove 0 \<lparr>Player = 2, Column = 6, Row = 0\<rparr>,
      AppendMove \<lparr>Player = 1, Column = 5, Row = 5\<rparr>, SetCell 0 0 Player1, DoMakeMove 3,
      DoMakeMove 3, DoMakeMove 3, SetWinner Player2, SetIsOver True, SetIsDraw True, Reslice 1]"

text \<open>The clone of that game, and the memory after the mutations of the clone.\<close>

definition cloned :: "nat \<times> Memory" where
  "cloned = the (Clone_m (fst three_moves) (snd three_moves))"

definition mutated :: Memory where
  "mutated = the (mutate_all (fst cloned) some_mutations (snd cloned))"

section \<open>Vocabulary of the properties\<close>

text \<open>The three results of a call \<open>g.MakeMove(column)\<close>: the row, the flag, the game after it.\<close>

definition move_row :: "Move list Game \<Rightarrow> int \<Rightarrow> int" where
  "move_row g column = fst (MakeMove g column)"

definition move_ok :: "Move list Game \<Rightarrow> int \<Rightarrow> bool" where
  "move_ok g column = fst (snd (MakeMove g column))"

definition after_move :: "Move list Game \<Rightarrow> int \<Rightarrow> Move list Game" where
  "after_move g column = snd (snd (MakeMove g column))"

text \<open>
  The game after \<open>MakeMove\<close> has been called with each column of a list in turn, and
  whether every one of these calls succeeded.
\<close>

fun moves_on :: "Move list Game \<Rightarrow> int list \<Rightarrow> Move list Game" where
  "moves_on g [] = g"
| "moves_on g (c # cs) = moves_on (after_move g c) cs"

fun all_ok :: "Move list Game \<Rightarrow> int list \<Rightarrow> bool" where
  "all_ok g [] = True"
| "all_ok g (c # cs) = (move_ok g c \<and> all_ok (after_move g c) cs)"

text \<open>The game after the disc and the move record are in place, before the terminal checks.\<close>

definition placed :: "Move list Game \<Rightarrow> int \<Rightarrow> int \<Rightarrow> Move list Game" where
  "placed g row column =
     g\<lparr>Board := set_cell (Board g) row column (CurrentPlayer g),
       Moves := Moves g @ [\<lparr>Player = CurrentPlayer g, Column = column, Row = row\<rparr>]\<rparr>"

text \<open>No floating disc: below a disc, down to the floor (row \<open>Rows - 1\<close>), every cell holds a disc.\<close>

definition no_floating :: "Board \<Rightarrow> bool" where
  "no_floating b =
     (\<forall>c\<in>{0..<Columns}. \<forall>r\<in>{0..<Rows}. \<forall>r'\<in>{r..<Rows}. b r c \<noteq> Empty \<longrightarrow> b r' c \<noteq> Empty)"

text \<open>No cell of the column is \<open>Empty\<close>.\<close>

definition column_full :: "Board \<Rightarrow> int \<Rightarrow> bool" where
  "column_full b c = (\<forall>r\<in>{0..<Rows}. b r c \<noteq> Empty)"

definition player_ok :: "'m Game \<Rightarrow> bool" where
  "player_ok g = (CurrentPlayer g = Player1 \<or> CurrentPlayer g = Player2)"

text \<open>
  Four in a row. \<open>four_at b p r c dr dc\<close>: the four cells from \<open>(r, c)\<close> in steps of
  \<open>(dr, dc)\<close> lie on the board and all hold \<open>p\<close>. \<open>has_four b p\<close>: some line of four cells of
  the board, horizontal, vertical or diagonal, holds \<open>p\<close> throughout. \<open>four_through b row
  col\<close>: the cell \<open>(row, col)\<close> is one of four cells in a line that all hold what it holds.
\<close>

definition four_at :: "Board \<Rightarrow> int \<Rightarrow> int \<Rightarrow> int \<Rightarrow> int \<Rightarrow> int \<Rightarrow> bool" where
  "four_at b p r c dr dc =
     (\<forall>i\<in>{0..<4}. 0 \<le> r + i * dr \<and> r + i * dr < Rows \<and> 0 \<le> c + i * dc \<and> c + i * dc < Columns \<and>
                  b (r + i * dr) (c + i * dc) = p)"

definition has_four :: "Board \<Rightarrow> int \<Rightarrow> bool" where
  "has_four b p =
     (\<exists>r\<in>{0..<Rows}. \<exists>c\<in>{0..<Columns}.
        four_at b p r c 0 1 \<or> four_at b p r c 1 0 \<or> four_at b p r c 1 1 \<or> four_at b p r c 1 (- 1))"

definition four_through :: "Board \<Rightarrow> int \<Rightarrow> int \<Rightarrow> bool" where
  "four_through b row col =
     (\<exists>i\<in>{0..<4}.
        four_at b (b row col) row (col - i) 0 1 \<or> four_at b (b row col) (row - i) col 1 0 \<or>
        four_at b (b row col) (row - i) (col - i) 1 1 \<or>
        four_at b (b row col) (row - i) (col + i) 1 (- 1))"

text \<open>
  The scan that the four loops of \<open>CheckWin\<close> share, on the list of the cells a loop
  visits: whether the running count of consecutive cells holding \<open>p\<close> reaches four.
\<close>

fun run4 :: "int \<Rightarrow> int list \<Rightarrow> int \<Rightarrow> bool" where
  "run4 p [] count = False"
| "run4 p (x # xs) count =
     (if x = p then (if count + 1 \<ge> 4 then True else run4 p xs (count + 1)) else run4 p xs 0)"

text \<open>
  The terminal fields agree with the board: a drawn game has a full top row, and a
  winner is \<open>Player1\<close> or \<open>Player2\<close> and has four in a row on the board.
\<close>

definition terminal_ok :: "'m Game \<Rightarrow> bool" where
  "terminal_ok g =
     ((IsDraw g \<longrightarrow> IsBoardFull g) \<and>
      (Winner g \<noteq> 0 \<longrightarrow> (Winner g = Player1 \<or> Winner g = Player2) \<and> has_four (Board g) (Winner g)))"

text \<open>And a four in a row of a player on the board has made a winner.\<close>

definition fours_won :: "'m Game \<Rightarrow> bool" where
  "fours_won g = (has_four (Board g) Player1 \<or> has_four (Board g) Player2 \<longrightarrow> Winner g \<noteq> 0)"

text \<open>
  Two games of 41 moves from the empty board, in which no move completes four in a
  row. Each leaves one cell empty: the top of column 0 in the first, where a disc
  completes nothing, and the top of column 3 in the second, where the disc of the player
  to move completes four in a row.
\<close>

definition drawn_moves :: "int list" where
  "drawn_moves =
     [4, 1, 6, 2, 1, 0, 1, 4, 4, 2, 4, 1, 3, 6, 3, 3, 1, 0, 4, 6, 6, 1, 2, 3, 2, 3, 2, 2, 6, 5,
      5, 0, 5, 4, 6, 5, 5, 5, 0, 0, 3]"

definition won_moves :: "int list" where
  "won_moves =
     [4, 1, 6, 2, 1, 0, 1, 4, 4, 2, 4, 1, 3, 6, 3, 3, 1, 0, 4, 6, 6, 1, 2, 3, 2, 3, 2, 2, 6, 5,
      5, 0, 5, 4, 6, 5, 5, 5, 0, 0, 0]"

text \<open>
  A simulated move as \<open>GetMove\<close> makes it: \<open>player\<close> moves on column \<open>col\<close> of a clone of the
  game, the move is valid, and the clone's winner is \<open>player\<close> after it.
\<close>

definition wins_on_clone :: "Move list Game \<Rightarrow> int \<Rightarrow> int \<Rightarrow> bool" where
  "wins_on_clone g player col =
     (move_ok ((Clone g)\<lparr>CurrentPlayer := player\<rparr>) col \<and>
      Winner (after_move ((Clone g)\<lparr>CurrentPlayer := player\<rparr>) col) = player)"

text \<open>The opponent that \<open>GetMove\<close> computes for a bot.\<close>

definition opponent_of :: "Bot \<Rightarrow> int" where
  "opponent_of b = (if BotPlayer b = Player1 then Player2 else Player1)"

text \<open>A game on an empty board.\<close>

definition start :: "Move list Game" where
  "start = NewGame ''g1'' ''c1'' ''alice'' ''c2'' ''bob'' False"

text \<open>
  A run of the server: the clients \<open>c1\<close> (alice) and \<open>c2\<close> (bob) are paired into the game
  \<open>g1\<close>; alice reconnects to it on a new connection \<open>c3\<close>; then the two play, alice on
  column 0 and bob on column 1, until alice's fourth disc wins and \<open>handleMove\<close> ends the
  game.
\<close>

definition alice :: Client where
  "alice = \<lparr>cID = ''c1'', cUsername = ''alice'', cGameID = []\<rparr>"

definition bob :: Client where
  "bob = \<lparr>cID = ''c2'', cUsername = ''bob'', cGameID = []\<rparr>"

definition paired :: Server where
  "paired = startGame alice (Some bob) False ''g1'' 100 NewServer"

definition reconnected :: Server where
  "reconnected =
     handleReconnect \<lparr>cID = ''c3'', cUsername = [], cGameID = []\<rparr>
       (zero_Message\<lparr>mType := ''reconnect'', mGameID := ''g1'', mUsername := ''alice''\<rparr>) paired"

fun client_moves :: "(Client \<times> int) list \<Rightarrow> Server \<Rightarrow> Server" where
  "client_moves [] s = s"
| "client_moves ((client, column) # rest) s =
     client_moves rest
       (handleMove client (zero_Message\<lparr>mType := ''move'', mColumn := column\<rparr>) 200 s)"

definition finished :: Server where
  "finished =
     client_moves
       [(alice\<lparr>cGameID := ''g1''\<rparr>, 0), (bob\<lparr>cGameID := ''g1''\<rparr>, 1),
        (alice\<lparr>cGameID := ''g1''\<rparr>, 0), (bob\<lparr>cGameID := ''g1''\<rparr>, 1),
        (alice\<lparr>cGameID := ''g1''\<rparr>, 0), (bob\<lparr>cGameID := ''g1''\<rparr>, 1),
        (alice\<lparr>cGameID := ''g1''\<rparr>, 0)]
       reconnected"

text \<open>The server's bot, and the columns that fill the board one column after the other.\<close>

definition bot2 :: Bot where
  "bot2 = \<lparr>BotPlayer = Player2\<rparr>"

definition fill_all :: "int list" where
  "fill_all = concat (map (replicate 6) [0, 1, 2, 3, 4, 5, 6])"

declare win_row.simps [simp del] win_col.simps [simp del] diag_start.simps [simp del]
  win_diag.simps [simp del] anti_start.simps [simp del] win_anti.simps [simp del]
  full_from.simps [simp del] valid_from.simps [simp del] find_row.simps [simp del]
  copy_cols.simps [simp del] copy_rows.simps [simp del] for_loop.simps [simp del]

section \<open>The row search and the cases of MakeMove\<close>

subsection \<open>The row search\<close>

lemma find_row_none: "(find_row b c r = - 1) = (\<forall>r'\<in>{0..r}. b r' c \<noteq> Empty)"
proof (induction b c r rule: find_row.induct)
  case (1 b column r)
  show ?case
  proof (cases "r \<ge> 0")
    case False
    then show ?thesis by (simp add: find_row.simps)
  next
    case True
    show ?thesis
    proof (cases "b r column = Empty")
      case True
      with \<open>r \<ge> 0\<close> show ?thesis by (auto simp: find_row.simps[of b column r])
    next
      case False
      have "{0..r} = insert r {0..r - 1}" using \<open>r \<ge> 0\<close> by auto
      with False \<open>r \<ge> 0\<close> 1 show ?thesis by (simp add: find_row.simps[of b column r])
    qed
  qed
qed

lemma find_row_some:
  "find_row b c r \<noteq> - 1 \<Longrightarrow>
     0 \<le> find_row b c r \<and> find_row b c r \<le> r \<and> b (find_row b c r) c = Empty \<and>
     (\<forall>r'. find_row b c r < r' \<and> r' \<le> r \<longrightarrow> b r' c \<noteq> Empty)"
proof (induction b c r rule: find_row.induct)
  case (1 b column r)
  show ?case
  proof (cases "r \<ge> 0")
    case False
    with 1 show ?thesis by (simp add: find_row.simps)
  next
    case True
    show ?thesis
    proof (cases "b r column = Empty")
      case True
      with \<open>r \<ge> 0\<close> show ?thesis by (simp add: find_row.simps[of b column r])
    next
      case False
      with \<open>r \<ge> 0\<close> have eq: "find_row b column r = find_row b column (r - 1)"
        by (simp add: find_row.simps[of b column r])
      with 1 False \<open>r \<ge> 0\<close>
      have ih: "0 \<le> find_row b column (r - 1) \<and> find_row b column (r - 1) \<le> r - 1 \<and>
        b (find_row b column (r - 1)) column = Empty \<and>
        (\<forall>r'. find_row b column (r - 1) < r' \<and> r' \<le> r - 1 \<longrightarrow> b r' column \<noteq> Empty)"
        by simp
      have "b r' column \<noteq> Empty" if "find_row b column (r - 1) < r'" "r' \<le> r" for r'
      proof (cases "r' = r")
        case True
        with False show ?thesis by simp
      next
        case False
        with that have "r' \<le> r - 1" by simp
        with ih that show ?thesis by blast
      qed
      with ih show ?thesis unfolding eq by auto
    qed
  qed
qed

lemma column_full_find_row: "column_full b c = (find_row b c (Rows - 1) = - 1)"
proof -
  have "{0..<Rows} = {0..Rows - 1}" by auto
  then show ?thesis by (simp add: column_full_def find_row_none)
qed

lemma no_floating_top:
  assumes "no_floating b" "0 \<le> c" "c < Columns"
  shows "column_full b c = (b 0 c \<noteq> Empty)"
proof
  assume "column_full b c"
  then show "b 0 c \<noteq> Empty" by (simp add: column_full_def)
next
  assume top: "b 0 c \<noteq> Empty"
  show "column_full b c"
    unfolding column_full_def
  proof
    fix r assume "r \<in> {0..<Rows}"
    with assms top show "b r c \<noteq> Empty"
      unfolding no_floating_def by (metis atLeastLessThan_iff order_refl zero_less_numeral)
  qed
qed

subsection \<open>The cases of MakeMove\<close>

lemma MakeMove_range_fail: "c < 0 \<or> c \<ge> Columns \<Longrightarrow> MakeMove g c = (- 1, False, g)"
  by (auto simp: MakeMove_def)

lemma MakeMove_full_fail:
  "find_row (Board g) c (Rows - 1) = - 1 \<Longrightarrow> MakeMove g c = (- 1, False, g)"
  by (simp add: MakeMove_def)

lemma MakeMove_success:
  assumes "0 \<le> c" "c < Columns" "find_row (Board g) c (Rows - 1) \<noteq> - 1"
  shows "MakeMove g c =
     (find_row (Board g) c (Rows - 1), True,
      let row = find_row (Board g) c (Rows - 1) in
      if CheckWin (placed g row c) row c then
        (placed g row c)\<lparr>Winner := CurrentPlayer g, IsOver := True\<rparr>
      else if IsBoardFull (placed g row c) then (placed g row c)\<lparr>IsDraw := True, IsOver := True\<rparr>
      else (placed g row c)\<lparr>CurrentPlayer := (if CurrentPlayer g = Player1 then Player2 else Player1)\<rparr>)"
  using assms by (simp add: MakeMove_def Let_def placed_def)

lemma move_ok_iff:
  "move_ok g c = (0 \<le> c \<and> c < Columns \<and> find_row (Board g) c (Rows - 1) \<noteq> - 1)"
proof (cases "c < 0 \<or> c \<ge> Columns")
  case True
  then show ?thesis using MakeMove_range_fail[of c g] by (auto simp: move_ok_def)
next
  case False
  then have c: "0 \<le> c" "c < Columns" by auto
  show ?thesis
  proof (cases "find_row (Board g) c (Rows - 1) = - 1")
    case True
    then show ?thesis using MakeMove_full_fail[of g c] by (simp add: move_ok_def)
  next
    case False
    then show ?thesis using MakeMove_success[OF c False] c by (simp add: move_ok_def)
  qed
qed

lemma move_fail_unchanged: "\<not> move_ok g c \<Longrightarrow> MakeMove g c = (- 1, False, g)"
  using MakeMove_range_fail[of c g] MakeMove_full_fail[of g c] by (auto simp: move_ok_iff)

lemma move_ok_row: "move_ok g c \<Longrightarrow> move_row g c = find_row (Board g) c (Rows - 1)"
  using MakeMove_success[of c g] by (simp add: move_ok_iff move_row_def)

lemma move_ok_after:
  "move_ok g c \<Longrightarrow> after_move g c =
     (let row = move_row g c in
      if CheckWin (placed g row c) row c then
        (placed g row c)\<lparr>Winner := CurrentPlayer g, IsOver := True\<rparr>
      else if IsBoardFull (placed g row c) then (placed g row c)\<lparr>IsDraw := True, IsOver := True\<rparr>
      else (placed g row c)\<lparr>CurrentPlayer := (if CurrentPlayer g = Player1 then Player2 else Player1)\<rparr>)"
  using MakeMove_success[of c g] by (simp add: move_ok_iff move_row_def after_move_def)

lemma move_ok_Board:
  "move_ok g c \<Longrightarrow> Board (after_move g c) = set_cell (Board g) (move_row g c) c (CurrentPlayer g)"
  by (simp add: move_ok_after Let_def placed_def)

lemma move_ok_Moves:
  "move_ok g c \<Longrightarrow>
     Moves (after_move g c) =
       Moves g @ [\<lparr>Player = CurrentPlayer g, Column = c, Row = move_row g c\<rparr>]"
  by (simp add: move_ok_after Let_def placed_def)

lemma move_ok_lowest:
  assumes "move_ok g c"
  shows "0 \<le> move_row g c" "move_row g c < Rows" "Board g (move_row g c) c = Empty"
    "\<And>r. move_row g c < r \<Longrightarrow> r < Rows \<Longrightarrow> Board g r c \<noteq> Empty"
proof -
  from assms have ne: "find_row (Board g) c (Rows - 1) \<noteq> - 1" by (simp add: move_ok_iff)
  note f = find_row_some[OF ne] and eq = move_ok_row[OF assms]
  from f show "0 \<le> move_row g c" "move_row g c < Rows" "Board g (move_row g c) c = Empty"
    by (simp_all add: eq)
  fix r assume "move_row g c < r" "r < Rows"
  with f show "Board g r c \<noteq> Empty" by (simp add: eq)
qed

subsection \<open>Invariants of play\<close>

lemma set_cell_no_floating:
  assumes nf: "no_floating b" and row: "find_row b c (Rows - 1) = row" "row \<noteq> - 1"
    and v: "v \<noteq> Empty"
  shows "no_floating (set_cell b row c v)"
proof -
  from find_row_some[of b c "Rows - 1"] row
  have below: "\<And>r'. row < r' \<Longrightarrow> r' \<le> 5 \<Longrightarrow> b r' c \<noteq> Empty"
    by auto
  show ?thesis
    unfolding no_floating_def
  proof (intro ballI impI)
    fix k r r'
    assume k: "k \<in> {0..<Columns}" and rr: "r \<in> {0..<Rows}" and r': "r' \<in> {r..<Rows}"
      and ne: "set_cell b row c v r k \<noteq> Empty"
    show "set_cell b row c v r' k \<noteq> Empty"
    proof (cases "k = c \<and> r' = row")
      case True
      then show ?thesis using v by (simp add: set_cell_def)
    next
      case False
      then have eq: "set_cell b row c v r' k = b r' k" by (auto simp: set_cell_def)
      show ?thesis
      proof (cases "k = c \<and> r = row")
        case True
        with False r' have "row < r'" "r' \<le> 5" by auto
        with below True show ?thesis unfolding eq by simp
      next
        case False
        then have "set_cell b row c v r k = b r k" by (auto simp: set_cell_def)
        with ne have "b r k \<noteq> Empty" by simp
        with nf k rr r' show ?thesis unfolding eq no_floating_def by blast
      qed
    qed
  qed
qed

lemma move_ok_player_ok: "move_ok g c \<Longrightarrow> player_ok g \<Longrightarrow> player_ok (after_move g c)"
  by (auto simp: move_ok_after Let_def player_ok_def placed_def)

lemma move_ok_no_floating:
  assumes ok: "move_ok g c" and "player_ok g" "no_floating (Board g)"
  shows "no_floating (Board (after_move g c))"
proof -
  from assms(2) have "CurrentPlayer g \<noteq> Empty" by (auto simp: player_ok_def)
  moreover from ok have "find_row (Board g) c (Rows - 1) \<noteq> - 1" by (simp add: move_ok_iff)
  ultimately show ?thesis
    using set_cell_no_floating[OF assms(3) refl, of c "CurrentPlayer g"]
    by (simp add: move_ok_Board[OF ok] move_ok_row[OF ok])
qed

lemma play_invariant:
  "all_ok g0 cs \<Longrightarrow> player_ok g0 \<Longrightarrow> no_floating (Board g0) \<Longrightarrow>
     player_ok (moves_on g0 cs) \<and> no_floating (Board (moves_on g0 cs))"
proof (induction cs arbitrary: g0)
  case Nil
  then show ?case by simp
next
  case (Cons c cs)
  from Cons.prems(1) have ok: "move_ok g0 c" and rest: "all_ok (after_move g0 c) cs" by simp_all
  from Cons.IH[OF rest move_ok_player_ok[OF ok Cons.prems(2)]
      move_ok_no_floating[OF ok Cons.prems(2,3)]]
  show ?case by simp
qed

lemma NewGame_invariant:
  "player_ok (NewGame gid p1ID p1Name p2ID p2Name isBot)"
  "no_floating (Board (NewGame gid p1ID p1Name p2ID p2Name isBot))"
  by (simp_all add: player_ok_def NewGame_def no_floating_def zero_Board_def)

lemma reachable_invariant:
  assumes "all_ok (NewGame gid p1ID p1Name p2ID p2Name isBot) cs"
  shows "player_ok (moves_on (NewGame gid p1ID p1Name p2ID p2Name isBot) cs)"
    and "no_floating (Board (moves_on (NewGame gid p1ID p1Name p2ID p2Name isBot) cs))"
  using play_invariant[OF assms NewGame_invariant] by simp_all

lemma CheckWin_Board: "Board g = Board g' \<Longrightarrow> CheckWin g row col = CheckWin g' row col"
  by (simp add: CheckWin_def)

lemma IsBoardFull_Board: "Board g = Board g' \<Longrightarrow> IsBoardFull g = IsBoardFull g'"
  by (simp add: IsBoardFull_def)

lemma move_ok_Board_placed:
  "move_ok g c \<Longrightarrow> Board (after_move g c) = Board (placed g (move_row g c) c)"
  by (simp add: move_ok_Board placed_def)

section \<open>Failing moves\<close>

text \<open>
  On every value of type \<open>Game\<close>, \<open>MakeMove\<close> fails exactly when the column is out of
  range or holds no \<open>Empty\<close> cell.
\<close>

lemma move_fails_iff_column_full:
  "(\<not> move_ok g c) = (c < 0 \<or> c \<ge> Columns \<or> column_full (Board g) c)"
  by (auto simp: move_ok_iff column_full_find_row)

text \<open>
  Claim C1. For every game state and every integer column \<open>c\<close>, \<open>MakeMove(c)\<close> returns
  \<open>ok = false\<close> if and only if \<open>c\<close> is out of range (\<open>c < 0\<close> or \<open>c \<ge> 7\<close>) or column \<open>c\<close> is full,
  that is, its top cell is not \<open>Empty\<close>. A game state is a game whose board has no
  floating disc, the invariant of the board; the statement is made for every such game
  and, as an instance, for every game reached from \<open>NewGame\<close> by successful moves. On
  every failing call, of any game, the game is unchanged: board, move history, current
  player, \<open>Winner\<close>, \<open>IsOver\<close>, \<open>IsDraw\<close> and every other field; the row returned is \<open>-1\<close>.
\<close>

theorem MakeMove_failure:
  "(no_floating (Board g) \<longrightarrow>
      (\<not> move_ok g c \<longleftrightarrow> (c < 0 \<or> c \<ge> Columns \<or> Board g 0 c \<noteq> Empty))) \<and>
   (all_ok (NewGame gid p1ID p1Name p2ID p2Name isBot) cs \<longrightarrow>
      (\<not> move_ok (moves_on (NewGame gid p1ID p1Name p2ID p2Name isBot) cs) c \<longleftrightarrow>
         (c < 0 \<or> c \<ge> Columns \<or>
          Board (moves_on (NewGame gid p1ID p1Name p2ID p2Name isBot) cs) 0 c \<noteq> Empty))) \<and>
   (\<not> move_ok g c \<longrightarrow> after_move g c = g \<and> move_row g c = - 1)"
proof -
  have top: "\<not> move_ok h c \<longleftrightarrow> (c < 0 \<or> c \<ge> Columns \<or> Board h 0 c \<noteq> Empty)"
    if "no_floating (Board h)" for h :: "Move list Game"
    using move_fails_iff_column_full[of h c] no_floating_top[OF that, of c] by auto
  have play: "\<not> move_ok (moves_on (NewGame gid p1ID p1Name p2ID p2Name isBot) cs) c \<longleftrightarrow>
         (c < 0 \<or> c \<ge> Columns \<or>
          Board (moves_on (NewGame gid p1ID p1Name p2ID p2Name isBot) cs) 0 c \<noteq> Empty)"
    if "all_ok (NewGame gid p1ID p1Name p2ID p2Name isBot) cs"
    using top[OF reachable_invariant(2)[OF that]] .
  have same: "after_move g c = g \<and> move_row g c = - 1" if "\<not> move_ok g c"
    using move_fail_unchanged[OF that] by (simp add: after_move_def move_row_def)
  from top[of g] play same show ?thesis by blast
qed

text \<open>
  The theorem at two games of play. After six moves on column 3 the top cell of the
  column is occupied, the seventh move fails and the game is unchanged. After three
  moves on column 3 the top cell is \<open>Empty\<close> and the fourth move succeeds.
\<close>

theorem MakeMove_failure_witness:
  "all_ok start [3, 3, 3, 3, 3, 3] \<and>
   no_floating (Board (moves_on start [3, 3, 3, 3, 3, 3])) \<and>
   \<not> move_ok (moves_on start [3, 3, 3, 3, 3, 3]) 3 \<and>
   Board (moves_on start [3, 3, 3, 3, 3, 3]) 0 3 \<noteq> Empty \<and>
   after_move (moves_on start [3, 3, 3, 3, 3, 3]) 3 = moves_on start [3, 3, 3, 3, 3, 3] \<and>
   move_row (moves_on start [3, 3, 3, 3, 3, 3]) 3 = - 1 \<and>
   all_ok start [3, 3, 3] \<and>
   move_ok (moves_on start [3, 3, 3]) 3 \<and>
   Board (moves_on start [3, 3, 3]) 0 3 = Empty"
proof -
  have 1: "all_ok start [3, 3, 3, 3, 3, 3]" by code_simp
  then have 2: "no_floating (Board (moves_on start [3, 3, 3, 3, 3, 3]))"
    unfolding start_def by (rule reachable_invariant)
  have 3: "\<not> move_ok (moves_on start [3, 3, 3, 3, 3, 3]) 3" by code_simp
  have 4: "all_ok start [3, 3, 3]" by code_simp
  have 5: "move_ok (moves_on start [3, 3, 3]) 3" by code_simp
  note six = MakeMove_failure[of "moves_on start [3, 3, 3, 3, 3, 3]" 3
      "''g1''" "''c1''" "''alice''" "''c2''" "''bob''" False "[3, 3, 3, 3, 3, 3]"]
  note three = MakeMove_failure[of "moves_on start [3, 3, 3]" 3
      "''g1''" "''c1''" "''alice''" "''c2''" "''bob''" False "[3, 3, 3]"]
  from six 1 3 have 6: "Board (moves_on start [3, 3, 3, 3, 3, 3]) 0 3 \<noteq> Empty"
    unfolding start_def by simp
  from six 3 have 7: "after_move (moves_on start [3, 3, 3, 3, 3, 3]) 3 =
      moves_on start [3, 3, 3, 3, 3, 3] \<and> move_row (moves_on start [3, 3, 3, 3, 3, 3]) 3 = - 1"
    by blast
  from three 4 5 have 8: "Board (moves_on start [3, 3, 3]) 0 3 = Empty"
    unfolding start_def by simp
  from 1 2 3 4 5 6 7 8 show ?thesis by blast
qed

section \<open>Discs never overlap and never float\<close>

text \<open>
  Claim C2. In every game reached from \<open>NewGame\<close> by successful calls of \<open>MakeMove\<close>, no
  disc floats: below a non-\<open>Empty\<close> cell every cell of the column is non-\<open>Empty\<close>. And a
  further successful move puts the mover's disc, which is not \<open>Empty\<close>, into a cell that
  was \<open>Empty\<close>, and leaves every non-\<open>Empty\<close> cell as it was: no cell receives two discs.
\<close>

theorem no_floating_discs:
  assumes "all_ok (NewGame gid p1ID p1Name p2ID p2Name isBot) cs"
    and "g = moves_on (NewGame gid p1ID p1Name p2ID p2Name isBot) cs"
  shows "no_floating (Board g) \<and>
     (\<forall>c. move_ok g c \<longrightarrow>
        Board g (move_row g c) c = Empty \<and>
        Board (after_move g c) (move_row g c) c = CurrentPlayer g \<and>
        CurrentPlayer g \<noteq> Empty \<and>
        (\<forall>r k. Board g r k \<noteq> Empty \<longrightarrow> Board (after_move g c) r k = Board g r k))"
proof -
  from reachable_invariant[OF assms(1)] assms(2)
  have inv: "player_ok g" "no_floating (Board g)" by simp_all
  have "Board g (move_row g c) c = Empty \<and>
        Board (after_move g c) (move_row g c) c = CurrentPlayer g \<and>
        CurrentPlayer g \<noteq> Empty \<and>
        (\<forall>r k. Board g r k \<noteq> Empty \<longrightarrow> Board (after_move g c) r k = Board g r k)"
    if ok: "move_ok g c" for c
  proof -
    from move_ok_lowest(3)[OF ok] have e: "Board g (move_row g c) c = Empty" .
    moreover from inv(1) have "CurrentPlayer g \<noteq> Empty" by (auto simp: player_ok_def)
    ultimately show ?thesis by (auto simp: move_ok_Board[OF ok] set_cell_def)
  qed
  with inv(2) show ?thesis by blast
qed

text \<open>The theorem at the game after the moves 3, 3, 4, and a fourth move on column 3.\<close>

theorem no_floating_discs_witness:
  "all_ok (NewGame ''g1'' ''c1'' ''alice'' ''c2'' ''bob'' False) [3, 3, 4] \<and>
   move_ok (moves_on (NewGame ''g1'' ''c1'' ''alice'' ''c2'' ''bob'' False) [3, 3, 4]) 3 \<and>
   no_floating (Board (moves_on (NewGame ''g1'' ''c1'' ''alice'' ''c2'' ''bob'' False) [3, 3, 4])) \<and>
   Board (moves_on (NewGame ''g1'' ''c1'' ''alice'' ''c2'' ''bob'' False) [3, 3, 4])
     (move_row (moves_on (NewGame ''g1'' ''c1'' ''alice'' ''c2'' ''bob'' False) [3, 3, 4]) 3) 3 = Empty"
proof -
  have 1: "all_ok (NewGame ''g1'' ''c1'' ''alice'' ''c2'' ''bob'' False) [3, 3, 4]"
    by code_simp
  have 2: "move_ok (moves_on (NewGame ''g1'' ''c1'' ''alice'' ''c2'' ''bob'' False) [3, 3, 4]) 3"
    by code_simp
  from 1 2 no_floating_discs[OF 1 refl] show ?thesis by blast
qed

section \<open>Successful moves\<close>

text \<open>
  Claim C4, as the code has it. Every successful \<open>MakeMove(c)\<close> places the current mover's
  disc at the lowest empty row of column \<open>c\<close> and appends exactly one move record (mover,
  column, resulting row) to the move history. It switches the current-mover indicator
  (from \<open>Player1\<close> to \<open>Player2\<close>, from anything else to \<open>Player1\<close>) when the move neither
  wins nor fills the board; a winning or board-filling move leaves the indicator as it
  was.
\<close>

theorem MakeMove_success_effect:
  assumes "move_ok g c"
  shows "0 \<le> move_row g c \<and> move_row g c < Rows \<and>
     Board g (move_row g c) c = Empty \<and>
     (\<forall>r. move_row g c < r \<and> r < Rows \<longrightarrow> Board g r c \<noteq> Empty) \<and>
     Board (after_move g c) = set_cell (Board g) (move_row g c) c (CurrentPlayer g) \<and>
     Moves (after_move g c) =
       Moves g @ [\<lparr>Player = CurrentPlayer g, Column = c, Row = move_row g c\<rparr>] \<and>
     CurrentPlayer (after_move g c) =
       (if CheckWin (after_move g c) (move_row g c) c \<or> IsBoardFull (after_move g c)
        then CurrentPlayer g
        else if CurrentPlayer g = Player1 then Player2 else Player1)"
proof -
  note b = move_ok_Board_placed[OF assms]
  have "CurrentPlayer (after_move g c) =
       (if CheckWin (after_move g c) (move_row g c) c \<or> IsBoardFull (after_move g c)
        then CurrentPlayer g
        else if CurrentPlayer g = Player1 then Player2 else Player1)"
    unfolding CheckWin_Board[OF b] IsBoardFull_Board[OF b]
    by (simp add: move_ok_after[OF assms] Let_def placed_def)
  with move_ok_lowest[OF assms] move_ok_Board[OF assms] move_ok_Moves[OF assms]
  show ?thesis by simp
qed

text \<open>The theorem at the first move of a game, on column 3.\<close>

theorem MakeMove_success_effect_witness:
  "move_ok start 3 \<and> move_row start 3 = 5 \<and>
   Moves (after_move start 3) = Moves start @ [\<lparr>Player = CurrentPlayer start, Column = 3, Row = 5\<rparr>] \<and>
   CurrentPlayer start = Player1 \<and> CurrentPlayer (after_move start 3) = Player2"
proof -
  have 1: "move_ok start 3" by code_simp
  have 2: "move_row start 3 = 5" by code_simp
  have 3: "CurrentPlayer start = Player1" by code_simp
  have 4: "\<not> CheckWin (after_move start 3) 5 3" by code_simp
  have 5: "\<not> IsBoardFull (after_move start 3)" by code_simp
  from MakeMove_success_effect[OF 1] 1 2 3 4 5 show ?thesis by simp
qed

text \<open>
  The fourth disc of \<open>Player1\<close> in column 0 wins the game: the move succeeds and the
  current player is still \<open>Player1\<close>, not the opponent.
\<close>

theorem MakeMove_no_switch_counterexample:
  "move_ok (moves_on start [0, 1, 0, 1, 0, 1]) 0 \<and>
   CurrentPlayer (moves_on start [0, 1, 0, 1, 0, 1]) = Player1 \<and>
   CurrentPlayer (after_move (moves_on start [0, 1, 0, 1, 0, 1]) 0) \<noteq> Player2"
  by code_simp

section \<open>Six discs in one column\<close>

text \<open>
  Claim C8, as the code has it. From an empty board, six calls of \<open>MakeMove\<close> on column 3
  succeed, on rows 5 down to 0, the colours alternate in the column, none of the six
  moves sets a winner or ends the game, and the seventh call on column 3 fails with
  row \<open>-1\<close> and \<open>ok = false\<close>, the column holding six discs.
\<close>

theorem column_three_scenario:
  "map (\<lambda>n. (move_row (moves_on (NewGame gid p1ID p1Name p2ID p2Name isBot) (replicate n 3)) 3,
              move_ok (moves_on (NewGame gid p1ID p1Name p2ID p2Name isBot) (replicate n 3)) 3,
              Winner (moves_on (NewGame gid p1ID p1Name p2ID p2Name isBot) (replicate (Suc n) 3)),
              IsOver (moves_on (NewGame gid p1ID p1Name p2ID p2Name isBot) (replicate (Suc n) 3))))
     [0, 1, 2, 3, 4, 5, 6] =
     [(5, True, 0, False), (4, True, 0, False), (3, True, 0, False), (2, True, 0, False),
      (1, True, 0, False), (0, True, 0, False), (- 1, False, 0, False)] \<and>
   map (\<lambda>r. Board (moves_on (NewGame gid p1ID p1Name p2ID p2Name isBot) (replicate 6 3)) r 3)
     [0, 1, 2, 3, 4, 5] = [Player2, Player1, Player2, Player1, Player2, Player1]"
  by code_simp

text \<open>The fifth call on column 3 succeeds: the column holds four discs before it.\<close>

theorem fifth_move_counterexample:
  "move_ok (moves_on start [3, 3, 3, 3]) 3 \<and> move_row (moves_on start [3, 3, 3, 3]) 3 = 1"
  by code_simp

section \<open>The bot's choice\<close>

lemma valid_from_filter:
  "0 \<le> c \<Longrightarrow> valid_from b c moves = moves @ filter (\<lambda>k. b 0 k = Empty) [c..Columns - 1]"
proof (induction b c moves rule: valid_from.induct)
  case (1 b c moves)
  show ?case
  proof (cases "c < Columns")
    case True
    then have u: "[c..6] = c # [c + 1..6]" by (simp add: upto_rec1)
    from True 1 have ih: "valid_from b (c + 1) (if b 0 c = 0 then moves @ [c] else moves) =
      (if b 0 c = 0 then moves @ [c] else moves) @ filter (\<lambda>k. b 0 k = 0) [c + 1..6]"
      by simp
    have "valid_from b c moves = valid_from b (c + 1) (if b 0 c = 0 then moves @ [c] else moves)"
      using True by (simp add: valid_from.simps[of b c moves])
    also note ih
    also have "(if b 0 c = 0 then moves @ [c] else moves) @ filter (\<lambda>k. b 0 k = 0) [c + 1..6] =
      moves @ filter (\<lambda>k. b 0 k = 0) (c # [c + 1..6])"
      by simp
    finally show ?thesis by (simp only: u [symmetric]) simp
  next
    case False
    then show ?thesis by (simp add: valid_from.simps[of b c moves])
  qed
qed

lemma GetValidMoves_filter:
  "GetValidMoves g = filter (\<lambda>k. Board g 0 k = Empty) [0..Columns - 1]"
  by (simp add: GetValidMoves_def valid_from_filter)

lemma GetValidMoves_set:
  "set (GetValidMoves g) = {c. 0 \<le> c \<and> c < Columns \<and> Board g 0 c = Empty}"
  by (auto simp: GetValidMoves_filter)

lemma GetValidMoves_sorted: "sorted (GetValidMoves g)"
  by (simp add: GetValidMoves_filter sorted_wrt_filter del: upto.simps)

lemma first_win_find:
  "first_win g player cols = find (wins_on_clone g player) cols"
  by (induction cols)
     (auto simp: wins_on_clone_def move_ok_def after_move_def split: prod.splits)

lemma find_sorted_least:
  "sorted xs \<Longrightarrow> find P xs = Some x \<Longrightarrow>
     x \<in> set xs \<and> P x \<and> (\<forall>y\<in>set xs. y < x \<longrightarrow> \<not> P y)"
proof (induction xs)
  case Nil
  then show ?case by simp
next
  case (Cons a xs)
  show ?case
  proof (cases "P a")
    case True
    with Cons.prems show ?thesis by auto
  next
    case False
    with Cons.prems have f: "find P xs = Some x" and s: "sorted xs" by simp_all
    from Cons.IH[OF s f] False show ?thesis by auto
  qed
qed

lemma find_None_iff': "(find P xs = None) = (\<forall>x\<in>set xs. \<not> P x)"
  by (induction xs) auto

lemma best_loop_subset:
  "best_loop b g opponent cols bestScore bestMoves = (s, ms) \<Longrightarrow>
     set ms \<subseteq> set bestMoves \<union> set cols"
proof (induction cols arbitrary: bestScore bestMoves)
  case Nil
  then show ?case by simp
next
  case (Cons col cols)
  obtain row valid clone
    where mm: "MakeMove ((Clone g)\<lparr>CurrentPlayer := BotPlayer b\<rparr>) col = (row, valid, clone)"
    by (metis prod_cases3)
  show ?case
  proof (cases valid)
    case False
    with Cons.prems mm have "best_loop b g opponent cols bestScore bestMoves = (s, ms)" by simp
    from Cons.IH[OF this] show ?thesis by auto
  next
    case True
    let ?score = "minimax b clone (MaxDepth - 1) MinInt32 MaxInt32 False opponent"
    consider (gt) "?score > bestScore" | (eq) "?score = bestScore" | (lt) "?score < bestScore"
      by linarith
    then show ?thesis
    proof cases
      case gt
      with Cons.prems mm True have "best_loop b g opponent cols ?score [col] = (s, ms)"
        by (simp add: Let_def)
      from Cons.IH[OF this] show ?thesis by auto
    next
      case eq
      with Cons.prems mm True
      have "best_loop b g opponent cols bestScore (bestMoves @ [col]) = (s, ms)"
        by (simp add: Let_def)
      from Cons.IH[OF this] show ?thesis by auto
    next
      case lt
      with Cons.prems mm True have "best_loop b g opponent cols bestScore bestMoves = (s, ms)"
        by (simp add: Let_def)
      from Cons.IH[OF this] show ?thesis by auto
    qed
  qed
qed

lemma center_pref_set: "set (center_pref cols acc) = set acc \<union> set cols"
  by (induction cols arbitrary: acc) auto

lemma Intn_less: "0 < n \<Longrightarrow> Intn rnd n < n"
  by (simp add: Intn_def)

lemma GetMove_cases:
  "(\<exists>col. first_win g (BotPlayer b) (GetValidMoves g) = Some col \<and> GetMove b g rnd = col) \<or>
   (first_win g (BotPlayer b) (GetValidMoves g) = None \<and>
    (\<exists>col. first_win g (opponent_of b) (GetValidMoves g) = Some col \<and> GetMove b g rnd = col)) \<or>
   (first_win g (BotPlayer b) (GetValidMoves g) = None \<and>
    first_win g (opponent_of b) (GetValidMoves g) = None \<and>
    (if GetValidMoves g = [] then GetMove b g rnd = 3
     else GetMove b g rnd \<in> set (GetValidMoves g)))"
proof (cases "first_win g (BotPlayer b) (GetValidMoves g)")
  case (Some col)
  then show ?thesis by (simp add: GetMove_def)
next
  case None
  note n1 = this
  show ?thesis
  proof (cases "first_win g (opponent_of b) (GetValidMoves g)")
    case (Some col)
    with n1 show ?thesis by (simp add: GetMove_def opponent_of_def)
  next
    case None
    note n2 = this
    obtain s ms where bl: "best_loop b g (opponent_of b) (GetValidMoves g) MinInt32 [] = (s, ms)"
      by (metis prod.exhaust)
    from best_loop_subset[OF bl] have sub: "set ms \<subseteq> set (GetValidMoves g)" by simp
    have gm: "GetMove b g rnd =
        (if length ms = 0 then
           (if length (GetValidMoves g) > 0
            then GetValidMoves g ! Intn rnd (length (GetValidMoves g)) else 3)
         else center_pref ms [] ! Intn rnd (length (center_pref ms [])))"
      using n1 n2 bl by (simp add: GetMove_def opponent_of_def Let_def)
    have "if GetValidMoves g = [] then GetMove b g rnd = 3
          else GetMove b g rnd \<in> set (GetValidMoves g)"
    proof (cases "ms = []")
      case True
      then show ?thesis using gm by (auto simp: Intn_less)
    next
      case False
      then have ne: "center_pref ms [] \<noteq> []"
        using center_pref_set[of ms "[]"] by (metis Un_empty_left set_empty)
      then have "center_pref ms [] ! Intn rnd (length (center_pref ms [])) \<in> set (center_pref ms [])"
        by (simp add: Intn_less)
      then have "GetMove b g rnd \<in> set ms" using gm False by (simp add: center_pref_set)
      with sub show ?thesis by auto
    qed
    with n1 n2 show ?thesis by simp
  qed
qed

text \<open>
  Claim C10. When the game has a valid move, \<open>GetMove\<close> returns a member of
  \<open>GetValidMoves\<close>, whatever the random draw: a column in range whose top cell is
  \<open>Empty\<close>. When it has none, \<open>GetMove\<close> returns the center column 3.
\<close>

theorem GetMove_valid:
  "(GetValidMoves g \<noteq> [] \<longrightarrow>
      GetMove b g rnd \<in> set (GetValidMoves g) \<and>
      0 \<le> GetMove b g rnd \<and> GetMove b g rnd < Columns \<and> Board g 0 (GetMove b g rnd) = Empty) \<and>
   (GetValidMoves g = [] \<longrightarrow> GetMove b g rnd = 3)"
proof -
  have in_set: "col \<in> set (GetValidMoves g)" if "first_win g p (GetValidMoves g) = Some col" for p col
    using that find_sorted_least[OF GetValidMoves_sorted] by (simp add: first_win_find) blast
  have a: "GetMove b g rnd \<in> set (GetValidMoves g)" if "GetValidMoves g \<noteq> []"
    using GetMove_cases[of g b rnd] that in_set by (auto split: if_splits)
  have b: "GetMove b g rnd = 3" if "GetValidMoves g = []"
    using GetMove_cases[of g b rnd] that by (auto simp: first_win.simps)
  from a b show ?thesis using GetValidMoves_set[of g] by auto
qed

text \<open>
  The theorem at the empty board, which has valid moves, and at a board filled by 42
  moves, which has none.
\<close>

theorem GetMove_valid_witness:
  "GetValidMoves start \<noteq> [] \<and> GetMove bot2 start 0 \<in> set (GetValidMoves start) \<and>
   GetValidMoves (moves_on start fill_all) = [] \<and> GetMove bot2 (moves_on start fill_all) 0 = 3"
proof -
  have 1: "GetValidMoves start \<noteq> []" by code_simp
  have 2: "GetValidMoves (moves_on start fill_all) = []" by code_simp
  from 1 2 GetMove_valid[of start bot2 0] GetMove_valid[of "moves_on start fill_all" bot2 0]
  show ?thesis by blast
qed

text \<open>
  Claim C6. If some valid column, played by the bot on a clone, leaves the bot as the
  clone's winner, \<open>GetMove\<close> returns the least such valid column. Otherwise, if some
  valid column, played by the opponent on a clone, leaves the opponent as the clone's
  winner, \<open>GetMove\<close> returns the least such valid column. Neither the random draw nor
  any minimax score has a part in it.
\<close>

theorem GetMove_priority:
  "((\<exists>c\<in>set (GetValidMoves g). wins_on_clone g (BotPlayer b) c) \<longrightarrow>
      GetMove b g rnd \<in> set (GetValidMoves g) \<and>
      wins_on_clone g (BotPlayer b) (GetMove b g rnd) \<and>
      (\<forall>c\<in>set (GetValidMoves g). c < GetMove b g rnd \<longrightarrow> \<not> wins_on_clone g (BotPlayer b) c)) \<and>
   ((\<forall>c\<in>set (GetValidMoves g). \<not> wins_on_clone g (BotPlayer b) c) \<and>
    (\<exists>c\<in>set (GetValidMoves g). wins_on_clone g (opponent_of b) c) \<longrightarrow>
      GetMove b g rnd \<in> set (GetValidMoves g) \<and>
      wins_on_clone g (opponent_of b) (GetMove b g rnd) \<and>
      (\<forall>c\<in>set (GetValidMoves g). c < GetMove b g rnd \<longrightarrow> \<not> wins_on_clone g (opponent_of b) c))"
proof -
  let ?vm = "GetValidMoves g"
  note least = find_sorted_least[OF GetValidMoves_sorted[of g]]
  have a: "GetMove b g rnd \<in> set ?vm \<and> wins_on_clone g (BotPlayer b) (GetMove b g rnd) \<and>
      (\<forall>c\<in>set ?vm. c < GetMove b g rnd \<longrightarrow> \<not> wins_on_clone g (BotPlayer b) c)"
    if ex: "\<exists>c\<in>set ?vm. wins_on_clone g (BotPlayer b) c"
  proof -
    from ex have "find (wins_on_clone g (BotPlayer b)) ?vm \<noteq> None"
      by (simp add: find_None_iff')
    then obtain col where f: "find (wins_on_clone g (BotPlayer b)) ?vm = Some col" by blast
    then have "GetMove b g rnd = col" by (simp add: GetMove_def first_win_find)
    with least[OF f] show ?thesis by simp
  qed
  have b: "GetMove b g rnd \<in> set ?vm \<and> wins_on_clone g (opponent_of b) (GetMove b g rnd) \<and>
      (\<forall>c\<in>set ?vm. c < GetMove b g rnd \<longrightarrow> \<not> wins_on_clone g (opponent_of b) c)"
    if no: "\<forall>c\<in>set ?vm. \<not> wins_on_clone g (BotPlayer b) c"
      and ex: "\<exists>c\<in>set ?vm. wins_on_clone g (opponent_of b) c"
  proof -
    from no have n: "find (wins_on_clone g (BotPlayer b)) ?vm = None"
      by (simp add: find_None_iff')
    from ex have "find (wins_on_clone g (opponent_of b)) ?vm \<noteq> None"
      by (simp add: find_None_iff')
    then obtain col where f: "find (wins_on_clone g (opponent_of b)) ?vm = Some col" by blast
    with n have "GetMove b g rnd = col"
      by (simp add: GetMove_def first_win_find opponent_of_def)
    with least[OF f] show ?thesis by simp
  qed
  from a b show ?thesis by blast
qed

text \<open>
  The theorem for the bot as \<open>Player2\<close>. After the moves 0, 1, 0, 1, 0, 1 the bot has three
  discs in column 1 and wins there. After the moves 0, 1, 0, 1, 0 the bot has no winning
  column, and \<open>Player1\<close> would win on column 0: the bot plays there.
\<close>

theorem GetMove_priority_witness:
  "1 \<in> set (GetValidMoves (moves_on start [0, 1, 0, 1, 0, 1])) \<and>
   wins_on_clone (moves_on start [0, 1, 0, 1, 0, 1]) (BotPlayer bot2) 1 \<and>
   wins_on_clone (moves_on start [0, 1, 0, 1, 0, 1]) (BotPlayer bot2)
     (GetMove bot2 (moves_on start [0, 1, 0, 1, 0, 1]) 0) \<and>
   GetMove bot2 (moves_on start [0, 1, 0, 1, 0, 1]) 0 = 1 \<and>
   filter (wins_on_clone (moves_on start [0, 1, 0, 1, 0]) (BotPlayer bot2))
     (GetValidMoves (moves_on start [0, 1, 0, 1, 0])) = [] \<and>
   0 \<in> set (GetValidMoves (moves_on start [0, 1, 0, 1, 0])) \<and>
   wins_on_clone (moves_on start [0, 1, 0, 1, 0]) (opponent_of bot2) 0 \<and>
   wins_on_clone (moves_on start [0, 1, 0, 1, 0]) (opponent_of bot2)
     (GetMove bot2 (moves_on start [0, 1, 0, 1, 0]) 0) \<and>
   GetMove bot2 (moves_on start [0, 1, 0, 1, 0]) 0 = 0"
proof -
  have 1: "1 \<in> set (GetValidMoves (moves_on start [0, 1, 0, 1, 0, 1]))" by code_simp
  have 2: "wins_on_clone (moves_on start [0, 1, 0, 1, 0, 1]) (BotPlayer bot2) 1" by code_simp
  have 3: "filter (wins_on_clone (moves_on start [0, 1, 0, 1, 0]) (BotPlayer bot2))
     (GetValidMoves (moves_on start [0, 1, 0, 1, 0])) = []" by code_simp
  then have none: "\<forall>c\<in>set (GetValidMoves (moves_on start [0, 1, 0, 1, 0])).
      \<not> wins_on_clone (moves_on start [0, 1, 0, 1, 0]) (BotPlayer bot2) c"
    by (simp add: filter_empty_conv)
  have 4: "0 \<in> set (GetValidMoves (moves_on start [0, 1, 0, 1, 0]))" by code_simp
  have 5: "wins_on_clone (moves_on start [0, 1, 0, 1, 0]) (opponent_of bot2) 0" by code_simp
  have 6: "GetMove bot2 (moves_on start [0, 1, 0, 1, 0, 1]) 0 = 1" by code_simp
  have 7: "GetMove bot2 (moves_on start [0, 1, 0, 1, 0]) 0 = 0" by code_simp
  from 1 2 GetMove_priority[of "moves_on start [0, 1, 0, 1, 0, 1]" bot2 0]
  have a: "wins_on_clone (moves_on start [0, 1, 0, 1, 0, 1]) (BotPlayer bot2)
     (GetMove bot2 (moves_on start [0, 1, 0, 1, 0, 1]) 0)" by blast
  from none 4 5 GetMove_priority[of "moves_on start [0, 1, 0, 1, 0]" bot2 0]
  have b: "wins_on_clone (moves_on start [0, 1, 0, 1, 0]) (opponent_of bot2)
     (GetMove bot2 (moves_on start [0, 1, 0, 1, 0]) 0)" by blast
  from 1 2 3 4 5 6 7 a b show ?thesis by blast
qed

section \<open>Starting a game\<close>

text \<open>
  Claim C9. A game built by \<open>NewGame\<close> has \<open>Player1\<close> as its current player. \<open>startGame\<close>,
  on the pairing path (\<open>player2\<close> given) and on the bot path (\<open>player2\<close> nil) alike,
  registers such a game under the new ID and sends exactly these \<open>game_start\<close> messages:
  one to player 1 with \<open>YourTurn = true\<close>, and, when player 2 is a client, one to player 2
  with \<open>YourTurn = false\<close>.
\<close>

theorem startGame_first_turn:
  "CurrentPlayer (NewGame gid p1ID p1Name p2ID p2Name isBot) = Player1 \<and>
   map_option CurrentPlayer (Games (startGame player1 player2 isBot gameID now s) gameID) =
     Some Player1 \<and>
   map (\<lambda>(clientID, msg). (clientID, mType msg, mYourTurn msg, mPlayer msg))
     (drop (length (Sent s)) (Sent (startGame player1 player2 isBot gameID now s))) =
     (cID player1, ''game_start'', True, Player1) #
     (case player2 of None \<Rightarrow> [] | Some p2 \<Rightarrow> [(cID p2, ''game_start'', False, Player2)])"
  by (cases player2)
     (simp_all add: startGame_def NewGame_def SetGame_def SetPlayerGame_def set_client_def
        SendToClient_def onGameStart_def zero_Message_def Let_def)

section \<open>The index from players to games\<close>

text \<open>
  Claim C7 at a run of the server. After \<open>startGame\<close> has paired alice and bob, their game
  is registered and not over, but the index has no entry under either display name: its
  entries are under the client IDs. After alice has reconnected by name and the game has
  been played to its end, \<open>endGame\<close> has removed the entries of the two first client IDs,
  and the entries under alice's name and under her new client ID still point to the
  finished game.
\<close>

theorem index_by_name_run:
  "map_option IsOver (Games paired ''g1'') = Some False \<and>
   map_option Player1Name (Games paired ''g1'') = Some ''alice'' \<and>
   map_option Player2Name (Games paired ''g1'') = Some ''bob'' \<and>
   PlayerToGame paired ''alice'' = None \<and> PlayerToGame paired ''bob'' = None \<and>
   PlayerToGame paired ''c1'' = Some ''g1'' \<and> PlayerToGame paired ''c2'' = Some ''g1'' \<and>
   map_option IsOver (Games finished ''g1'') = Some True \<and>
   map_option Winner (Games finished ''g1'') = Some Player1 \<and>
   PlayerToGame finished ''c1'' = None \<and> PlayerToGame finished ''c2'' = None \<and>
   PlayerToGame finished ''alice'' = Some ''g1'' \<and> PlayerToGame finished ''c3'' = Some ''g1''"
  by code_simp

section \<open>Clone\<close>

lemma copy_cols_cell:
  "copy_cols src dst r c r' k =
     (if r' = r \<and> c \<le> k \<and> k < Columns then src r k else dst r' k)"
proof (induction src dst r c rule: copy_cols.induct)
  case (1 src dst r c)
  show ?case
  proof (cases "c < Columns")
    case True
    then have step: "copy_cols src dst r c = copy_cols src (set_cell dst r c (src r c)) r (c + 1)"
      by (simp add: copy_cols.simps[of src dst r c])
    from 1[OF True]
    have ih: "copy_cols src (set_cell dst r c (src r c)) r (c + 1) r' k =
      (if r' = r \<and> c + 1 \<le> k \<and> k < Columns then src r k
       else set_cell dst r c (src r c) r' k)" .
    show ?thesis unfolding step ih using True by (auto simp: set_cell_def)
  next
    case False
    then show ?thesis by (simp add: copy_cols.simps[of src dst r c])
  qed
qed

lemma copy_rows_cell:
  "copy_rows src dst r r' k =
     (if r \<le> r' \<and> r' < Rows \<and> 0 \<le> k \<and> k < Columns then src r' k else dst r' k)"
proof (induction src dst r rule: copy_rows.induct)
  case (1 src dst r)
  show ?case
  proof (cases "r < Rows")
    case True
    then have step: "copy_rows src dst r = copy_rows src (copy_cols src dst r 0) (r + 1)"
      by (simp add: copy_rows.simps[of src dst r])
    from 1[OF True]
    have ih: "copy_rows src (copy_cols src dst r 0) (r + 1) r' k =
      (if r + 1 \<le> r' \<and> r' < Rows \<and> 0 \<le> k \<and> k < Columns then src r' k
       else copy_cols src dst r 0 r' k)" .
    show ?thesis unfolding step ih using True by (auto simp: copy_cols_cell)
  next
    case False
    then show ?thesis by (simp add: copy_rows.simps[of src dst r])
  qed
qed

lemma Clone_Board:
  "Board (Clone g) r k = (if 0 \<le> r \<and> r < Rows \<and> 0 \<le> k \<and> k < Columns then Board g r k else 0)"
  by (simp add: Clone_def copy_rows_cell zero_Board_def)

lemma Clone_fields:
  "ID (Clone g) = ID g" "CurrentPlayer (Clone g) = CurrentPlayer g"
  "Player1ID (Clone g) = Player1ID g" "Player2ID (Clone g) = Player2ID g"
  "Player1Name (Clone g) = Player1Name g" "Player2Name (Clone g) = Player2Name g"
  "IsBot (Clone g) = IsBot g" "Winner (Clone g) = Winner g" "IsOver (Clone g) = IsOver g"
  "IsDraw (Clone g) = IsDraw g" "Moves (Clone g) = Moves g"
  "StartTime (Clone g) = StartTime g" "EndTime (Clone g) = EndTime g"
  by (simp_all add: Clone_def)

subsection \<open>Slices\<close>

lemma append_move_frame:
  assumes "append_move sl x m = (sl', m')"
  shows "objects m' = objects m" "next_addr m \<le> next_addr m'"
    "\<And>a. a \<noteq> s_ptr sl \<Longrightarrow> a < next_addr m \<Longrightarrow> arrays m' a = arrays m a"
    "s_ptr sl' = s_ptr sl \<or> s_ptr sl' = next_addr m"
    "s_ptr sl < next_addr m \<Longrightarrow> s_ptr sl' < next_addr m'"
  using assms by (auto simp: append_move_def Let_def split: if_splits)

text \<open>A slice that lies within its allocated array, and what appending does to its moves.\<close>

lemma append_move_moves:
  assumes "append_move sl x m = (sl', m')"
    and "arrays m (s_ptr sl) = Some xs" "length xs = s_cap sl" "s_len sl \<le> s_cap sl"
  shows "slice_moves m' sl' = slice_moves m sl @ [x]"
    and "\<exists>ys. arrays m' (s_ptr sl') = Some ys \<and> length ys = s_cap sl'"
    and "s_len sl' \<le> s_cap sl'"
proof -
  show "slice_moves m' sl' = slice_moves m sl @ [x]"
  proof (cases "s_len sl < s_cap sl")
    case True
    with assms show ?thesis
      by (auto simp: append_move_def slice_moves_def take_Suc_conv_app_nth)
  next
    case False
    with assms show ?thesis
      by (auto simp: append_move_def slice_moves_def Let_def)
  qed
  show "\<exists>ys. arrays m' (s_ptr sl') = Some ys \<and> length ys = s_cap sl'"
    using assms by (auto simp: append_move_def slice_moves_def Let_def split: if_splits)
  show "s_len sl' \<le> s_cap sl'"
    using assms by (auto simp: append_move_def Let_def split: if_splits)
qed

subsection \<open>Mutating one game leaves a separate game alone\<close>

lemma MakeMove_m_frame:
  assumes "MakeMove_m q c m = Some (row, ok, m')" and "objects m q = Some gq"
  shows "\<exists>gq'. objects m' = (objects m)(q \<mapsto> gq') \<and>
       (s_ptr (Moves gq') = s_ptr (Moves gq) \<or> s_ptr (Moves gq') = next_addr m)"
    and "next_addr m \<le> next_addr m'"
    and "\<And>a. a \<noteq> s_ptr (Moves gq) \<Longrightarrow> a < next_addr m \<Longrightarrow> arrays m' a = arrays m a"
proof -
  let ?row = "find_row (Board gq) c (Rows - 1)"
  let ?g1 = "gq\<lparr>Board := set_cell (Board gq) ?row c (CurrentPlayer gq)\<rparr>"
  let ?move = "\<lparr>Player = CurrentPlayer ?g1, Column = c, Row = ?row\<rparr>"
  obtain sl ma where ap: "append_move (Moves ?g1) ?move m = (sl, ma)" by (metis prod.exhaust)
  note fr = append_move_frame[OF ap]
  have cases: "m' = m \<or>
      (objects m' = (objects ma)(q \<mapsto> the (objects m' q)) \<and> Moves (the (objects m' q)) = sl \<and>
       arrays m' = arrays ma \<and> next_addr m' = next_addr ma)"
    using assms ap by (auto simp: MakeMove_m_def Let_def split: if_splits)
  then show "\<exists>gq'. objects m' = (objects m)(q \<mapsto> gq') \<and>
       (s_ptr (Moves gq') = s_ptr (Moves gq) \<or> s_ptr (Moves gq') = next_addr m)"
  proof
    assume "m' = m"
    with assms(2) have "objects m' = (objects m)(q \<mapsto> gq)" by (simp add: map_upd_triv)
    then show ?thesis by blast
  next
    assume a: "objects m' = (objects ma)(q \<mapsto> the (objects m' q)) \<and>
       Moves (the (objects m' q)) = sl \<and> arrays m' = arrays ma \<and> next_addr m' = next_addr ma"
    with fr(1) have "objects m' = (objects m)(q \<mapsto> the (objects m' q))" by simp
    moreover from a fr(4) have "s_ptr (Moves (the (objects m' q))) = s_ptr (Moves gq) \<or>
       s_ptr (Moves (the (objects m' q))) = next_addr m" by simp
    ultimately show ?thesis by blast
  qed
  from cases fr(2) show "next_addr m \<le> next_addr m'" by auto
  fix a assume "a \<noteq> s_ptr (Moves gq)" "a < next_addr m"
  with cases fr(3)[of a] show "arrays m' a = arrays m a" by auto
qed

lemma mutate_separate:
  assumes sep: "separate m p q" and mu: "mutate q x m = Some m'"
    and gp: "objects m p = Some gp"
  shows "separate m' p q \<and> objects m' p = Some gp \<and>
     arrays m' (s_ptr (Moves gp)) = arrays m (s_ptr (Moves gp))"
proof -
  from sep gp obtain gq where gq: "objects m q = Some gq" and ne: "p \<noteq> q"
    and ptr: "s_ptr (Moves gp) \<noteq> s_ptr (Moves gq)" and al: "s_ptr (Moves gp) < next_addr m"
    by (auto simp: separate_def split: option.splits)
  show ?thesis
  proof (cases x)
    case (DoMakeMove c)
    with mu obtain row ok where mm: "MakeMove_m q c m = Some (row, ok, m')" by auto
    from MakeMove_m_frame[OF mm gq] ptr al ne gp show ?thesis
      by (auto simp: separate_def)
  next
    case (SetCurrentPlayer v)
    with mu gq gp ne ptr al show ?thesis by (auto simp: update_object_def separate_def)
  next
    case (SetCell r c v)
    with mu gq gp ne ptr al show ?thesis
      by (auto simp: update_object_def separate_def split: if_splits)
  next
    case (SetWinner v)
    with mu gq gp ne ptr al show ?thesis by (auto simp: update_object_def separate_def)
  next
    case (SetIsOver v)
    with mu gq gp ne ptr al show ?thesis by (auto simp: update_object_def separate_def)
  next
    case (SetIsDraw v)
    with mu gq gp ne ptr al show ?thesis by (auto simp: update_object_def separate_def)
  next
    case (SetMove i y)
    with mu gq gp ne ptr al show ?thesis by (auto simp: separate_def split: if_splits)
  next
    case (AppendMove y)
    obtain sl ma where ap: "append_move (Moves gq) y m = (sl, ma)" by (metis prod.exhaust)
    note fr = append_move_frame[OF ap]
    from AppendMove mu gq ap have m': "m' = ma\<lparr>objects := (objects ma)(q \<mapsto> gq\<lparr>Moves := sl\<rparr>)\<rparr>"
      by simp
    from fr(3)[of "s_ptr (Moves gp)"] ptr al
    have "arrays ma (s_ptr (Moves gp)) = arrays m (s_ptr (Moves gp))" by simp
    with m' fr(1,2,4) gp ne ptr al show ?thesis by (auto simp: separate_def)
  next
    case (Reslice n)
    with mu gq gp ne ptr al show ?thesis by (auto simp: separate_def split: if_splits)
  qed
qed

lemma observe_frame:
  "objects m' p = Some gp \<Longrightarrow> objects m p = Some gp \<Longrightarrow>
   arrays m' (s_ptr (Moves gp)) = arrays m (s_ptr (Moves gp)) \<Longrightarrow> observe m' p = observe m p"
  by (simp add: observe_def slice_moves_def)

lemma mutate_all_separate:
  "separate m p q \<Longrightarrow> mutate_all q xs m = Some m' \<Longrightarrow> observe m' p = observe m p"
proof (induction xs arbitrary: m)
  case Nil
  then show ?case by simp
next
  case (Cons x xs)
  from Cons.prems(2) obtain m1 where mu: "mutate q x m = Some m1"
    and rest: "mutate_all q xs m1 = Some m'" by (auto split: option.splits)
  from Cons.prems(1) obtain gp where gp: "objects m p = Some gp"
    by (auto simp: separate_def split: option.splits)
  from mutate_separate[OF Cons.prems(1) mu gp]
  have s1: "separate m1 p q" and o1: "objects m1 p = Some gp"
    and a1: "arrays m1 (s_ptr (Moves gp)) = arrays m (s_ptr (Moves gp))" by simp_all
  from Cons.IH[OF s1 rest] observe_frame[OF o1 gp a1] show ?case by simp
qed

subsection \<open>The clone in memory\<close>

lemma Clone_m_result:
  assumes al: "allocated m p" and cl: "Clone_m p m = Some (q, m1)"
  shows "q \<noteq> p" "separate m1 p q" "observe m1 p = observe m p"
    "observe m1 q = map_option Clone (observe m p)"
proof -
  from al obtain g xs where g: "objects m p = Some g" and lt: "p < next_addr m"
    "s_ptr (Moves g) < next_addr m" "s_len (Moves g) \<le> s_cap (Moves g)"
    and xs: "arrays m (s_ptr (Moves g)) = Some xs" "length xs = s_cap (Moves g)"
    by (auto simp: allocated_def split: option.splits)
  from cl g have q: "q = next_addr m"
    by (auto simp: Clone_m_def Let_def make_moves_def split: prod.splits)
  with lt show "q \<noteq> p" by simp
  from cl g lt xs have o: "objects m1 = (objects m)(q \<mapsto>
       \<lparr>ID = ID g, Board = copy_rows (Board g) zero_Board 0, CurrentPlayer = CurrentPlayer g,
        Player1ID = Player1ID g, Player2ID = Player2ID g,
        Player1Name = Player1Name g, Player2Name = Player2Name g,
        IsBot = IsBot g, Winner = Winner g, IsOver = IsOver g,
        IsDraw = IsDraw g, Moves = \<lparr>s_ptr = next_addr m + 1, s_len = s_len (Moves g),
           s_cap = s_len (Moves g)\<rparr>,
        StartTime = StartTime g, EndTime = EndTime g\<rparr>)"
    and a: "arrays m1 = (arrays m)(next_addr m + 1 \<mapsto> take (s_len (Moves g)) xs)"
    and n: "next_addr m1 = next_addr m + 2"
    by (auto simp: Clone_m_def Let_def make_moves_def copy_moves_def slice_moves_def q)
  from o a n g lt q show "separate m1 p q" by (auto simp: separate_def)
  from o a g lt q xs show "observe m1 p = observe m p"
    by (auto simp: observe_def slice_moves_def)
  from o a g lt q xs show "observe m1 q = map_option Clone (observe m p)"
    by (auto simp: observe_def slice_moves_def Clone_def with_moves_def)
qed

lemma Clone_m_Some: "objects m p \<noteq> None \<Longrightarrow> Clone_m p m \<noteq> None"
  by (auto simp: Clone_m_def Let_def split: prod.splits)

subsection \<open>MakeMove in memory is MakeMove on the observed value\<close>

lemma with_moves_simps:
  "Board (with_moves g ms) = Board g" "CurrentPlayer (with_moves g ms) = CurrentPlayer g"
  "Moves (with_moves g ms) = ms"
  "with_moves (g\<lparr>Winner := w\<rparr>) ms = (with_moves g ms)\<lparr>Winner := w\<rparr>"
  "with_moves (g\<lparr>IsOver := ov\<rparr>) ms = (with_moves g ms)\<lparr>IsOver := ov\<rparr>"
  "with_moves (g\<lparr>IsDraw := d\<rparr>) ms = (with_moves g ms)\<lparr>IsDraw := d\<rparr>"
  "with_moves (g\<lparr>CurrentPlayer := cp\<rparr>) ms = (with_moves g ms)\<lparr>CurrentPlayer := cp\<rparr>"
  "with_moves (g\<lparr>Board := b\<rparr>) ms = (with_moves g ms)\<lparr>Board := b\<rparr>"
  "with_moves (g\<lparr>Moves := sl\<rparr>) ms = with_moves g ms"
  "(with_moves g ms)\<lparr>Moves := ms'\<rparr> = with_moves g ms'"
  by (simp_all add: with_moves_def)

lemma MakeMove_m_refines:
  assumes al: "allocated m p" and ob: "observe m p = Some g"
  shows "\<exists>m'. MakeMove_m p c m = Some (move_row g c, move_ok g c, m') \<and>
     observe m' p = Some (after_move g c) \<and> allocated m' p"
proof -
  from al obtain go xs where go: "objects m p = Some go" and lt: "p < next_addr m"
    "s_ptr (Moves go) < next_addr m" "s_len (Moves go) \<le> s_cap (Moves go)"
    and xs: "arrays m (s_ptr (Moves go)) = Some xs" "length xs = s_cap (Moves go)"
    by (auto simp: allocated_def split: option.splits)
  from ob go have g: "g = with_moves go (slice_moves m (Moves go))"
    by (simp add: observe_def)
  then have bg: "Board g = Board go" and cp: "CurrentPlayer g = CurrentPlayer go"
    by (simp_all add: with_moves_simps)
  show ?thesis
  proof (cases "move_ok g c")
    case False
    then have "c < 0 \<or> c \<ge> Columns \<or> find_row (Board go) c (Rows - 1) = - 1"
      by (auto simp: move_ok_iff bg)
    then have "MakeMove_m p c m = Some (- 1, False, m)"
      using go by (auto simp: MakeMove_m_def)
    moreover from move_fail_unchanged[OF False]
    have "move_row g c = - 1" "after_move g c = g" by (simp_all add: move_row_def after_move_def)
    ultimately show ?thesis using False al ob by simp
  next
    case True
    define row where "row = find_row (Board go) c (Rows - 1)"
    from True have c: "0 \<le> c" "c < Columns" "row \<noteq> - 1"
      by (simp_all add: move_ok_iff bg row_def)
    have row: "move_row g c = row" using move_ok_row[OF True] by (simp add: bg row_def)
    define move where "move = \<lparr>Player = CurrentPlayer go, Column = c, Row = row\<rparr>"
    obtain sl ma where ap: "append_move (Moves go) move m = (sl, ma)" by (metis prod.exhaust)
    note fr = append_move_frame[OF ap]
    note mv = append_move_moves[OF ap xs lt(3)]
    from mv(2) obtain ys where ys: "arrays ma (s_ptr sl) = Some ys" "length ys = s_cap sl" by blast
    define g2 where "g2 = go\<lparr>Board := set_cell (Board go) row c (CurrentPlayer go), Moves := sl\<rparr>"
    define G where "G = (if CheckWin g2 row c then g2\<lparr>Winner := CurrentPlayer g2, IsOver := True\<rparr>
              else if IsBoardFull g2 then g2\<lparr>IsDraw := True, IsOver := True\<rparr>
              else g2\<lparr>CurrentPlayer := (if CurrentPlayer g2 = Player1 then Player2 else Player1)\<rparr>)"
    define m' where "m' = ma\<lparr>objects := (objects ma)(p \<mapsto> G)\<rparr>"
    have mm: "MakeMove_m p c m = Some (row, True, m')"
      using go c ap unfolding m'_def G_def g2_def move_def row_def
      by (simp add: MakeMove_m_def Let_def)
    have pl: "placed g row c = with_moves g2 (slice_moves ma sl)"
      by (simp add: placed_def g g2_def with_moves_def mv(1) move_def)
    have cw: "CheckWin (with_moves g2 (slice_moves ma sl)) row c = CheckWin g2 row c"
      by (simp add: CheckWin_def with_moves_simps)
    have bf: "IsBoardFull (with_moves g2 (slice_moves ma sl)) = IsBoardFull g2"
      by (simp add: IsBoardFull_def with_moves_simps)
    have MG: "Moves G = sl" by (simp add: G_def g2_def)
    have cp2: "CurrentPlayer g2 = CurrentPlayer g" by (simp add: g2_def cp)
    have am: "after_move g c = with_moves G (slice_moves ma sl)"
      unfolding move_ok_after[OF True] row Let_def pl cw bf G_def
      by (simp add: with_moves_simps cp2)
    have ob': "observe m' p = Some (after_move g c)"
      by (simp add: observe_def m'_def am MG slice_moves_def)
    have al': "allocated m' p"
      using lt(1) fr(2) fr(5)[OF lt(2)] mv(3) ys by (simp add: allocated_def m'_def MG)
    from mm ob' al' row True show ?thesis by simp
  qed
qed

text \<open>
  Claim C5. \<open>Clone\<close> of an allocated game returns a new struct. The clone is observed as
  the value \<open>Clone\<close> of the original: the 42 cells of the board, the move history, the
  current player and the terminal flags are equal. The original is observed as before
  the call, and after any sequence of \<open>MakeMove\<close> calls, field assignments and move-list
  mutations on the clone that does not panic, the original is still observed as
  before: its board, its move history and its \<open>GetValidMoves\<close>, with every other field.
\<close>

theorem Clone_independent:
  assumes "allocated m p" and "Clone_m p m = Some (q, m1)"
  shows "q \<noteq> p \<and> observe m1 p = observe m p \<and> observe m1 q = map_option Clone (observe m p) \<and>
     (\<exists>g c. observe m p = Some g \<and> observe m1 q = Some c \<and>
        (\<forall>r\<in>{0..<Rows}. \<forall>k\<in>{0..<Columns}. Board c r k = Board g r k) \<and>
        Moves c = Moves g \<and> CurrentPlayer c = CurrentPlayer g \<and>
        Winner c = Winner g \<and> IsOver c = IsOver g \<and> IsDraw c = IsDraw g) \<and>
     (\<forall>xs m2. mutate_all q xs m1 = Some m2 \<longrightarrow>
        observe m2 p = observe m p \<and>
        map_option Board (observe m2 p) = map_option Board (observe m p) \<and>
        map_option Moves (observe m2 p) = map_option Moves (observe m p) \<and>
        map_option GetValidMoves (observe m2 p) = map_option GetValidMoves (observe m p))"
proof -
  note r = Clone_m_result[OF assms]
  from assms(1) obtain g where g: "observe m p = Some g"
    by (auto simp: allocated_def observe_def split: option.splits)
  with r(4) have c: "observe m1 q = Some (Clone g)" by simp
  have eq: "(\<forall>r\<in>{0..<Rows}. \<forall>k\<in>{0..<Columns}. Board (Clone g) r k = Board g r k) \<and>
        Moves (Clone g) = Moves g \<and> CurrentPlayer (Clone g) = CurrentPlayer g \<and>
        Winner (Clone g) = Winner g \<and> IsOver (Clone g) = IsOver g \<and> IsDraw (Clone g) = IsDraw g"
    by (simp add: Clone_Board Clone_fields)
  have ind: "observe m2 p = observe m p" if "mutate_all q xs m1 = Some m2" for xs m2
    using mutate_all_separate[OF r(2) that] r(3) by simp
  from r(1,3,4) g c eq ind show ?thesis by (auto simp del: atLeastLessThan_iff)
qed

lemma NewGame_m_observe:
  "NewGame_m gid p1ID p1Name p2ID p2Name isBot m = (p, m') \<Longrightarrow>
     observe m' p = Some (NewGame gid p1ID p1Name p2ID p2Name isBot) \<and> allocated m' p"
  by (auto simp: NewGame_m_def make_moves_def observe_def allocated_def with_moves_def
      NewGame_def slice_moves_def)

text \<open>
  The theorem at the game after three moves on column 3: it is cloned, the clone is
  mutated in every way, and the original is observed as before, while the clone's move
  list has become a single, different move.
\<close>

theorem Clone_independent_witness:
  "allocated (snd three_moves) (fst three_moves) \<and>
   Clone_m (fst three_moves) (snd three_moves) = Some (fst cloned, snd cloned) \<and>
   mutate_all (fst cloned) some_mutations (snd cloned) = Some mutated \<and>
   observe mutated (fst three_moves) = observe (snd three_moves) (fst three_moves) \<and>
   map_option Moves (observe (snd three_moves) (fst three_moves)) =
     Some [\<lparr>Player = 1, Column = 3, Row = 5\<rparr>, \<lparr>Player = 2, Column = 3, Row = 4\<rparr>,
           \<lparr>Player = 1, Column = 3, Row = 3\<rparr>] \<and>
   map_option Moves (observe mutated (fst cloned)) = Some [\<lparr>Player = 2, Column = 6, Row = 0\<rparr>]"
proof -
  have 1: "allocated (snd three_moves) (fst three_moves)" by code_simp
  have "\<not> Option.is_none (Clone_m (fst three_moves) (snd three_moves))" by code_simp
  then have 2: "Clone_m (fst three_moves) (snd three_moves) = Some (fst cloned, snd cloned)"
    by (simp add: cloned_def Option.is_none_def)
  have "\<not> Option.is_none (mutate_all (fst cloned) some_mutations (snd cloned))" by code_simp
  then have 3: "mutate_all (fst cloned) some_mutations (snd cloned) = Some mutated"
    by (simp add: mutated_def Option.is_none_def)
  have 4: "map_option Moves (observe (snd three_moves) (fst three_moves)) =
     Some [\<lparr>Player = 1, Column = 3, Row = 5\<rparr>, \<lparr>Player = 2, Column = 3, Row = 4\<rparr>,
           \<lparr>Player = 1, Column = 3, Row = 3\<rparr>]" by code_simp
  have 5: "map_option Moves (observe mutated (fst cloned)) =
     Some [\<lparr>Player = 2, Column = 6, Row = 0\<rparr>]" by code_simp
  from Clone_independent[OF 1 2] 3
  have "observe mutated (fst three_moves) = observe (snd three_moves) (fst three_moves)"
    by blast
  with 1 2 3 4 5 show ?thesis by blast
qed

section \<open>The win check\<close>

subsection \<open>The scan of a list of cells\<close>

lemma run4_sound:
  "run4 p xs count \<Longrightarrow> 0 \<le> count \<Longrightarrow>
     (\<exists>i. i + 4 \<le> length xs \<and> (\<forall>j<4. xs ! (i + j) = p)) \<or>
     (\<exists>k. 4 \<le> int k + count \<and> k \<le> length xs \<and> (\<forall>j<k. xs ! j = p))"
proof (induction xs arbitrary: count)
  case Nil
  then show ?case by simp
next
  case (Cons x xs)
  show ?case
  proof (cases "x = p")
    case False
    with Cons.prems have "run4 p xs 0" by simp
    from Cons.IH[OF this] have "(\<exists>i. i + 4 \<le> length xs \<and> (\<forall>j<4. xs ! (i + j) = p)) \<or>
     (\<exists>k. 4 \<le> int k \<and> k \<le> length xs \<and> (\<forall>j<k. xs ! j = p))" by simp
    then have "\<exists>i. i + 4 \<le> length xs \<and> (\<forall>j<4. xs ! (i + j) = p)"
    proof
      assume "\<exists>k. 4 \<le> int k \<and> k \<le> length xs \<and> (\<forall>j<k. xs ! j = p)"
      then obtain k where "4 \<le> k" "k \<le> length xs" "\<forall>j<k. xs ! j = p" by auto
      then have "0 + 4 \<le> length xs \<and> (\<forall>j<4. xs ! (0 + j) = p)" by simp
      then show ?thesis by blast
    qed
    then obtain i where "i + 4 \<le> length xs" "\<forall>j<4. xs ! (i + j) = p" by blast
    then have "Suc i + 4 \<le> length (x # xs) \<and> (\<forall>j<4. (x # xs) ! (Suc i + j) = p)" by simp
    then show ?thesis by blast
  next
    case True
    show ?thesis
    proof (cases "count + 1 \<ge> 4")
      case c4: True
      have "4 \<le> int 1 + count \<and> 1 \<le> length (x # xs) \<and> (\<forall>j<1. (x # xs) ! j = p)"
        using c4 True by simp
      then show ?thesis by blast
    next
      case False
      with True Cons.prems have "run4 p xs (count + 1)" by simp
      from Cons.IH[OF this] Cons.prems(2)
      consider (a) i where "i + 4 \<le> length xs" "\<forall>j<4. xs ! (i + j) = p"
        | (b) k where "4 \<le> int k + (count + 1)" "k \<le> length xs" "\<forall>j<k. xs ! j = p"
        by auto
      then show ?thesis
      proof cases
        case a
        then have "Suc i + 4 \<le> length (x # xs) \<and> (\<forall>j<4. (x # xs) ! (Suc i + j) = p)" by simp
        then show ?thesis by blast
      next
        case b
        have "\<forall>j<Suc k. (x # xs) ! j = p"
          using b(3) True by (auto simp: nth_Cons split: nat.splits)
        with b have "4 \<le> int (Suc k) + count \<and> Suc k \<le> length (x # xs) \<and>
          (\<forall>j<Suc k. (x # xs) ! j = p)" by simp
        then show ?thesis by blast
      qed
    qed
  qed
qed

lemma run4_sound0:
  assumes "run4 p xs 0"
  shows "\<exists>i. i + 4 \<le> length xs \<and> (\<forall>j<4. xs ! (i + j) = p)"
proof -
  from run4_sound[OF assms] consider (a) i where "i + 4 \<le> length xs" "\<forall>j<4. xs ! (i + j) = p"
    | (b) k where "4 \<le> int k" "k \<le> length xs" "\<forall>j<k. xs ! j = p"
    by auto
  then show ?thesis
  proof cases
    case a
    then show ?thesis by blast
  next
    case b
    then have "0 + 4 \<le> length xs \<and> (\<forall>j<4. xs ! (0 + j) = p)" by simp
    then show ?thesis by blast
  qed
qed

lemma run4_prefix:
  "0 \<le> count \<Longrightarrow> 4 \<le> int k + count \<Longrightarrow> 0 < k \<Longrightarrow> k \<le> length xs \<Longrightarrow> \<forall>j<k. xs ! j = p \<Longrightarrow>
     run4 p xs count"
proof (induction xs arbitrary: count k)
  case Nil
  then show ?case by simp
next
  case (Cons x xs)
  from Cons.prems(3,5) have x: "x = p" by auto
  show ?case
  proof (cases "count + 1 \<ge> 4")
    case True
    with x show ?thesis by simp
  next
    case False
    with Cons.prems(2) have k2: "k \<ge> 2" by simp
    then obtain k' where k': "k = Suc k'" "0 < k'" by (cases k) auto
    have "run4 p xs (count + 1)"
    proof (rule Cons.IH[of "count + 1" k'])
      show "0 \<le> count + 1" using Cons.prems(1) by simp
      show "4 \<le> int k' + (count + 1)" using Cons.prems(2) k' by simp
      show "0 < k'" by fact
      show "k' \<le> length xs" using Cons.prems(4) k' by simp
      show "\<forall>j<k'. xs ! j = p" using Cons.prems(5) k' by auto
    qed
    with x False show ?thesis by simp
  qed
qed

lemma run4_complete:
  "0 \<le> count \<Longrightarrow> i + 4 \<le> length xs \<Longrightarrow> \<forall>j<4. xs ! (i + j) = p \<Longrightarrow> run4 p xs count"
proof (induction xs arbitrary: count i)
  case Nil
  then show ?case by simp
next
  case (Cons x xs)
  show ?case
  proof (cases i)
    case 0
    with Cons.prems have "\<forall>j<4. (x # xs) ! j = p" by simp
    from run4_prefix[OF Cons.prems(1) _ _ _ this] Cons.prems(1,2) show ?thesis by simp
  next
    case (Suc i')
    with Cons.prems have i': "i' + 4 \<le> length xs" "\<forall>j<4. xs ! (i' + j) = p" by simp_all
    show ?thesis
    proof (cases "x = p")
      case False
      with Cons.IH[OF _ i', of 0] show ?thesis by simp
    next
      case True
      show ?thesis
      proof (cases "count + 1 \<ge> 4")
        case c4: True
        with True show ?thesis by simp
      next
        case False
        with True Cons.IH[OF _ i', of "count + 1"] Cons.prems(1) show ?thesis by simp
      qed
    qed
  qed
qed

subsection \<open>The loops of CheckWin as scans of lists\<close>

lemma cells_step:
  assumes "0 < n"
  shows "map (\<lambda>i. h (int i)) [0..<n] = h 0 # map (\<lambda>i. h (1 + int i)) [0..<n - 1]"
proof -
  from assms obtain k where n: "n = Suc k" by (cases n) auto
  have "[0..<Suc k] = 0 # map Suc [0..<k]" by (simp add: upt_conv_Cons map_Suc_upt del: upt_Suc)
  then show ?thesis unfolding n by (simp add: comp_def del: upt_Suc)
qed

lemma win_row_run4:
  "win_row b p row c count =
     run4 p (map (\<lambda>i. b row (c + int i)) [0..<nat (Columns - c)]) count"
proof (induction b p row c count rule: win_row.induct)
  case (1 b p row c count)
  show ?case
  proof (cases "c < Columns")
    case True
    then have n: "0 < nat (Columns - c)" and n1: "nat (Columns - c) - 1 = nat (Columns - (c + 1))"
      by auto
    have l: "map (\<lambda>i. b row (c + int i)) [0..<nat (Columns - c)] =
      b row c # map (\<lambda>i. b row (c + 1 + int i)) [0..<nat (Columns - (c + 1))]"
      using cells_step[OF n, of "\<lambda>k. b row (c + k)"] unfolding n1 by (simp add: add.assoc)
    show ?thesis
      unfolding l using True 1 by (simp add: win_row.simps[of b p row c count])
  next
    case False
    then show ?thesis by (simp add: win_row.simps[of b p row c count])
  qed
qed

lemma win_col_run4:
  "win_col b p col r count =
     run4 p (map (\<lambda>i. b (r + int i) col) [0..<nat (Rows - r)]) count"
proof (induction b p col r count rule: win_col.induct)
  case (1 b p col r count)
  show ?case
  proof (cases "r < Rows")
    case True
    then have n: "0 < nat (Rows - r)" and n1: "nat (Rows - r) - 1 = nat (Rows - (r + 1))"
      by auto
    have l: "map (\<lambda>i. b (r + int i) col) [0..<nat (Rows - r)] =
      b r col # map (\<lambda>i. b (r + 1 + int i) col) [0..<nat (Rows - (r + 1))]"
      using cells_step[OF n, of "\<lambda>k. b (r + k) col"] unfolding n1 by (simp add: add.assoc)
    show ?thesis
      unfolding l using True 1 by (simp add: win_col.simps[of b p col r count])
  next
    case False
    then show ?thesis by (simp add: win_col.simps[of b p col r count])
  qed
qed

lemma win_diag_run4:
  "win_diag b p r c count =
     run4 p (map (\<lambda>i. b (r + int i) (c + int i)) [0..<nat (min (Rows - r) (Columns - c))]) count"
proof (induction b p r c count rule: win_diag.induct)
  case (1 b p r c count)
  show ?case
  proof (cases "r < Rows \<and> c < Columns")
    case True
    then have n: "0 < nat (min (Rows - r) (Columns - c))"
      and n1: "nat (min (Rows - r) (Columns - c)) - 1 =
        nat (min (Rows - (r + 1)) (Columns - (c + 1)))"
      by (auto simp: min_def)
    have l: "map (\<lambda>i. b (r + int i) (c + int i)) [0..<nat (min (Rows - r) (Columns - c))] =
      b r c # map (\<lambda>i. b (r + 1 + int i) (c + 1 + int i))
                [0..<nat (min (Rows - (r + 1)) (Columns - (c + 1)))]"
      using cells_step[OF n, of "\<lambda>k. b (r + k) (c + k)"] unfolding n1 by (simp add: add.assoc)
    show ?thesis
      unfolding l using True 1 by (simp add: win_diag.simps[of b p r c count])
  next
    case False
    then have z: "nat (min (Rows - r) (Columns - c)) = 0" by auto
    have "\<not> win_diag b p r c count"
      by (subst win_diag.simps) (simp only: False if_False not_False_eq_True)
    then show ?thesis by (simp add: z)
  qed
qed

lemma win_anti_run4:
  "win_anti b p r c count =
     run4 p (map (\<lambda>i. b (r + int i) (c - int i)) [0..<nat (min (Rows - r) (c + 1))]) count"
proof (induction b p r c count rule: win_anti.induct)
  case (1 b p r c count)
  show ?case
  proof (cases "r < Rows \<and> c \<ge> 0")
    case True
    then have n: "0 < nat (min (Rows - r) (c + 1))"
      and n1: "nat (min (Rows - r) (c + 1)) - 1 = nat (min (Rows - (r + 1)) (c - 1 + 1))"
      by (auto simp: min_def)
    have l: "map (\<lambda>i. b (r + int i) (c - int i)) [0..<nat (min (Rows - r) (c + 1))] =
      b r c # map (\<lambda>i. b (r + 1 + int i) (c - 1 - int i))
                [0..<nat (min (Rows - (r + 1)) (c - 1 + 1))]"
      using cells_step[OF n, of "\<lambda>k. b (r + k) (c - k)"] unfolding n1
      by (simp add: add.assoc diff_diff_eq)
    show ?thesis
      unfolding l using True 1 by (simp add: win_anti.simps[of b p r c count])
  next
    case False
    then have z: "nat (min (Rows - r) (c + 1)) = 0" by auto
    have "\<not> win_anti b p r c count"
      by (subst win_anti.simps) (simp only: False if_False not_False_eq_True)
    then show ?thesis by (simp add: z)
  qed
qed

lemma diag_start_eq:
  "0 \<le> r \<Longrightarrow> 0 \<le> c \<Longrightarrow> diag_start r c = (r - min r c, c - min r c)"
proof (induction r c rule: diag_start.induct)
  case (1 startRow startCol)
  show ?case
  proof (cases "startRow > 0 \<and> startCol > 0")
    case True
    with 1 show ?thesis by (simp add: diag_start.simps[of startRow startCol] min_def)
  next
    case False
    with 1 show ?thesis by (auto simp: diag_start.simps[of startRow startCol] min_def)
  qed
qed

lemma anti_start_eq:
  "0 \<le> r \<Longrightarrow> c \<le> Columns - 1 \<Longrightarrow>
     anti_start r c = (r - min r (Columns - 1 - c), c + min r (Columns - 1 - c))"
proof (induction r c rule: anti_start.induct)
  case (1 startRow startCol)
  show ?case
  proof (cases "startRow > 0 \<and> startCol < Columns - 1")
    case True
    with 1 show ?thesis by (simp add: anti_start.simps[of startRow startCol] min_def)
  next
    case False
    with 1 show ?thesis by (auto simp: anti_start.simps[of startRow startCol] min_def)
  qed
qed

lemma CheckWin_run4:
  assumes "0 \<le> row" "0 \<le> col" "col < Columns"
  shows "CheckWin g row col =
    (run4 (Board g row col) (map (\<lambda>i. Board g row (int i)) [0..<7]) 0 \<or>
     run4 (Board g row col) (map (\<lambda>i. Board g (int i) col) [0..<6]) 0 \<or>
     run4 (Board g row col)
       (map (\<lambda>i. Board g (row - min row col + int i) (col - min row col + int i))
          [0..<nat (min (Rows - (row - min row col)) (Columns - (col - min row col)))]) 0 \<or>
     run4 (Board g row col)
       (map (\<lambda>i. Board g (row - min row (6 - col) + int i) (col + min row (6 - col) - int i))
          [0..<nat (min (Rows - (row - min row (6 - col))) (col + min row (6 - col) + 1))]) 0)"
  using assms
  by (simp add: CheckWin_def Let_def diag_start_eq anti_start_eq win_row_run4 win_col_run4
      win_diag_run4 win_anti_run4 del: upt_Suc)

subsection \<open>What the win check finds\<close>

lemma four_atI:
  assumes "\<And>j. j < 4 \<Longrightarrow>
     0 \<le> r + int j * dr \<and> r + int j * dr < Rows \<and> 0 \<le> c + int j * dc \<and>
     c + int j * dc < Columns \<and> b (r + int j * dr) (c + int j * dc) = p"
  shows "four_at b p r c dr dc"
  unfolding four_at_def
proof
  fix i :: int assume "i \<in> {0..<4}"
  then have "nat i < 4" "int (nat i) = i" by auto
  with assms[of "nat i"] show "0 \<le> r + i * dr \<and> r + i * dr < Rows \<and> 0 \<le> c + i * dc \<and>
     c + i * dc < Columns \<and> b (r + i * dr) (c + i * dc) = p" by simp
qed

lemma four_atD:
  assumes "four_at b p r c dr dc" "j < 4"
  shows "0 \<le> r + int j * dr" "r + int j * dr < Rows" "0 \<le> c + int j * dc"
    "c + int j * dc < Columns" "b (r + int j * dr) (c + int j * dc) = p"
proof -
  from assms(2) have "int j \<in> {0..<4}" by simp
  with assms(1) have "0 \<le> r + int j * dr \<and> r + int j * dr < Rows \<and> 0 \<le> c + int j * dc \<and>
     c + int j * dc < Columns \<and> b (r + int j * dr) (c + int j * dc) = p"
    unfolding four_at_def by blast
  then show "0 \<le> r + int j * dr" "r + int j * dr < Rows" "0 \<le> c + int j * dc"
    "c + int j * dc < Columns" "b (r + int j * dr) (c + int j * dc) = p" by simp_all
qed

lemma has_fourI:
  "four_at b p r c 0 1 \<or> four_at b p r c 1 0 \<or> four_at b p r c 1 1 \<or> four_at b p r c 1 (- 1)
   \<Longrightarrow> has_four b p"
proof -
  assume a: "four_at b p r c 0 1 \<or> four_at b p r c 1 0 \<or> four_at b p r c 1 1 \<or>
    four_at b p r c 1 (- 1)"
  then have "0 \<le> r \<and> r < Rows \<and> 0 \<le> c \<and> c < Columns"
    using four_atD(1-4)[of b p r c _ _ 0] by auto
  then have "r \<in> {0..<Rows}" "c \<in> {0..<Columns}" by simp_all
  with a show ?thesis unfolding has_four_def by blast
qed

lemma scan_found:
  assumes "run4 p (map (\<lambda>i. f (int i)) [0..<n]) 0"
  shows "\<exists>i. i + 4 \<le> n \<and> (\<forall>j<4. f (int i + int j) = p)"
proof -
  from run4_sound0[OF assms] obtain i
    where i: "i + 4 \<le> n" "\<forall>j<4. map (\<lambda>i. f (int i)) [0..<n] ! (i + j) = p" by auto
  have "f (int i + int j) = p" if "j < 4" for j
  proof -
    from that i(1) have "i + j < n" by simp
    then have "map (\<lambda>i. f (int i)) [0..<n] ! (i + j) = f (int (i + j))" by simp
    with i(2) that show ?thesis by simp
  qed
  with i(1) show ?thesis by blast
qed

lemma scan_finds:
  assumes "i + 4 \<le> n" "\<And>j. j < 4 \<Longrightarrow> f (int i + int j) = p"
  shows "run4 p (map (\<lambda>i. f (int i)) [0..<n]) 0"
proof (rule run4_complete[of 0 i])
  show "i + 4 \<le> length (map (\<lambda>i. f (int i)) [0..<n])" using assms(1) by simp
  show "\<forall>j<4. map (\<lambda>i. f (int i)) [0..<n] ! (i + j) = p"
  proof (intro allI impI)
    fix j :: nat assume j: "j < 4"
    with assms(1) have "i + j < n" by simp
    then have "map (\<lambda>i. f (int i)) [0..<n] ! (i + j) = f (int (i + j))" by simp
    with assms(2)[OF j] show "map (\<lambda>i. f (int i)) [0..<n] ! (i + j) = p" by simp
  qed
qed simp

lemma CheckWin_sound:
  assumes r: "0 \<le> row" "row < Rows" and c: "0 \<le> col" "col < Columns"
    and w: "CheckWin g row col"
  shows "has_four (Board g) (Board g row col)"
proof -
  let ?b = "Board g" and ?p = "Board g row col"
  define m where "m = min row col"
  define m' where "m' = min row (6 - col)"
  from w CheckWin_run4[OF r(1) c, of g]
  consider (h) "run4 ?p (map (\<lambda>i. ?b row (int i)) [0..<7]) 0"
    | (v) "run4 ?p (map (\<lambda>i. ?b (int i) col) [0..<6]) 0"
    | (d) "run4 ?p (map (\<lambda>i. ?b (row - m + int i) (col - m + int i))
          [0..<nat (min (Rows - (row - m)) (Columns - (col - m)))]) 0"
    | (a) "run4 ?p (map (\<lambda>i. ?b (row - m' + int i) (col + m' - int i))
          [0..<nat (min (Rows - (row - m')) (col + m' + 1))]) 0"
    unfolding m_def m'_def by blast
  then show ?thesis
  proof cases
    case h
    from scan_found[of ?p "\<lambda>k. ?b row k" 7, OF h]
    obtain i where i: "i + 4 \<le> 7" "\<And>j. j < 4 \<Longrightarrow> ?b row (int i + int j) = ?p"
      by blast
    have "four_at ?b ?p row (int i) 0 1"
      by (rule four_atI) (use i r in auto)
    then show ?thesis by (blast intro: has_fourI)
  next
    case v
    from scan_found[of ?p "\<lambda>k. ?b k col" 6, OF v]
    obtain i where i: "i + 4 \<le> 6" "\<And>j. j < 4 \<Longrightarrow> ?b (int i + int j) col = ?p"
      by blast
    have "four_at ?b ?p (int i) col 1 0"
      by (rule four_atI) (use i c in auto)
    then show ?thesis by (blast intro: has_fourI)
  next
    case d
    from scan_found[of ?p "\<lambda>k. ?b (row - m + k) (col - m + k)", OF d]
    obtain i where i: "i + 4 \<le> nat (min (Rows - (row - m)) (Columns - (col - m)))"
      "\<And>j. j < 4 \<Longrightarrow> ?b (row - m + (int i + int j)) (col - m + (int i + int j)) = ?p"
      by blast
    have m0: "0 \<le> row - m" "0 \<le> col - m" using r c by (auto simp: m_def)
    from i(1) have le: "int i + 4 \<le> Rows - (row - m)" "int i + 4 \<le> Columns - (col - m)"
      by (auto simp: min_def split: if_splits)
    have "four_at ?b ?p (row - m + int i) (col - m + int i) 1 1"
    proof (rule four_atI)
      fix j :: nat assume j: "j < 4"
      from i(2)[OF j] have "?b (row - m + int i + int j * 1) (col - m + int i + int j * 1) = ?p"
        by (simp add: add.assoc)
      with j m0 le show "0 \<le> row - m + int i + int j * 1 \<and> row - m + int i + int j * 1 < Rows \<and>
        0 \<le> col - m + int i + int j * 1 \<and> col - m + int i + int j * 1 < Columns \<and>
        ?b (row - m + int i + int j * 1) (col - m + int i + int j * 1) = ?p" by auto
    qed
    then show ?thesis by (blast intro: has_fourI)
  next
    case a
    from scan_found[of ?p "\<lambda>k. ?b (row - m' + k) (col + m' - k)", OF a]
    obtain i where i: "i + 4 \<le> nat (min (Rows - (row - m')) (col + m' + 1))"
      "\<And>j. j < 4 \<Longrightarrow> ?b (row - m' + (int i + int j)) (col + m' - (int i + int j)) = ?p"
      by blast
    have m0: "0 \<le> row - m'" "col + m' \<le> 6" using r c by (auto simp: m'_def)
    from i(1) have le: "int i + 4 \<le> Rows - (row - m')" "int i + 4 \<le> col + m' + 1"
      by (auto simp: min_def split: if_splits)
    have "four_at ?b ?p (row - m' + int i) (col + m' - int i) 1 (- 1)"
    proof (rule four_atI)
      fix j :: nat assume j: "j < 4"
      from i(2)[OF j]
      have "?b (row - m' + int i + int j * 1) (col + m' - int i + int j * (- 1)) = ?p"
        by (simp add: add.assoc diff_diff_eq)
      with j m0 le
      show "0 \<le> row - m' + int i + int j * 1 \<and> row - m' + int i + int j * 1 < Rows \<and>
        0 \<le> col + m' - int i + int j * (- 1) \<and> col + m' - int i + int j * (- 1) < Columns \<and>
        ?b (row - m' + int i + int j * 1) (col + m' - int i + int j * (- 1)) = ?p" by auto
    qed
    then show ?thesis by (blast intro: has_fourI)
  qed
qed

lemma CheckWin_complete:
  assumes r: "0 \<le> row" "row < Rows" and c: "0 \<le> col" "col < Columns"
    and f: "four_through (Board g) row col"
  shows "CheckWin g row col"
proof -
  let ?b = "Board g" and ?p = "Board g row col"
  define m where "m = min row col"
  define m' where "m' = min row (6 - col)"
  from f obtain i :: int where i: "0 \<le> i" "i < 4"
    and cases: "four_at ?b ?p row (col - i) 0 1 \<or> four_at ?b ?p (row - i) col 1 0 \<or>
        four_at ?b ?p (row - i) (col - i) 1 1 \<or> four_at ?b ?p (row - i) (col + i) 1 (- 1)"
    unfolding four_through_def by auto
  from cases consider (h) "four_at ?b ?p row (col - i) 0 1" | (v) "four_at ?b ?p (row - i) col 1 0"
    | (d) "four_at ?b ?p (row - i) (col - i) 1 1" | (a) "four_at ?b ?p (row - i) (col + i) 1 (- 1)"
    by blast
  then have "run4 ?p (map (\<lambda>i. ?b row (int i)) [0..<7]) 0 \<or>
     run4 ?p (map (\<lambda>i. ?b (int i) col) [0..<6]) 0 \<or>
     run4 ?p (map (\<lambda>i. ?b (row - m + int i) (col - m + int i))
          [0..<nat (min (Rows - (row - m)) (Columns - (col - m)))]) 0 \<or>
     run4 ?p (map (\<lambda>i. ?b (row - m' + int i) (col + m' - int i))
          [0..<nat (min (Rows - (row - m')) (col + m' + 1))]) 0"
  proof cases
    case h
    note d = four_atD[OF h]
    from d(3)[of 0] d(4)[of 3] have k: "0 \<le> col - i" "col - i + 3 < 7" by simp_all
    have "run4 ?p (map (\<lambda>i. ?b row (int i)) [0..<7]) 0"
    proof (rule scan_finds[of "nat (col - i)"])
      show "nat (col - i) + 4 \<le> 7" using k by simp
      fix j :: nat assume "j < 4"
      from d(5)[OF this] k show "?b row (int (nat (col - i)) + int j) = ?p" by simp
    qed
    then show ?thesis by blast
  next
    case v
    note d = four_atD[OF v]
    from d(1)[of 0] d(2)[of 3] have k: "0 \<le> row - i" "row - i + 3 < 6" by simp_all
    have "run4 ?p (map (\<lambda>i. ?b (int i) col) [0..<6]) 0"
    proof (rule scan_finds[of "nat (row - i)"])
      show "nat (row - i) + 4 \<le> 6" using k by simp
      fix j :: nat assume "j < 4"
      from d(5)[OF this] k show "?b (int (nat (row - i)) + int j) col = ?p" by simp
    qed
    then show ?thesis by blast
  next
    case d
    note e = four_atD[OF d]
    from e(1)[of 0] e(3)[of 0] e(2)[of 3] e(4)[of 3]
    have k: "0 \<le> row - i" "0 \<le> col - i" "row - i + 3 < 6" "col - i + 3 < 7" by simp_all
    then have im: "i \<le> m" by (simp add: m_def)
    have "run4 ?p (map (\<lambda>i. ?b (row - m + int i) (col - m + int i))
          [0..<nat (min (Rows - (row - m)) (Columns - (col - m)))]) 0"
    proof (rule scan_finds[of "nat (m - i)" _ "\<lambda>k. ?b (row - m + k) (col - m + k)"])
      have "m - i + 4 \<le> min (Rows - (row - m)) (Columns - (col - m))"
        using k im by (simp add: min_def)
      moreover have "int (nat (m - i) + 4) = m - i + 4" using im by simp
      ultimately show "nat (m - i) + 4 \<le> nat (min (Rows - (row - m)) (Columns - (col - m)))"
        by linarith
      fix j :: nat assume "j < 4"
      from e(5)[OF this] im
      show "?b (row - m + (int (nat (m - i)) + int j)) (col - m + (int (nat (m - i)) + int j)) = ?p"
        by (simp add: algebra_simps)
    qed
    then show ?thesis by blast
  next
    case a
    note e = four_atD[OF a]
    from e(1)[of 0] e(4)[of 0] e(2)[of 3] e(3)[of 3]
    have k: "0 \<le> row - i" "col + i < 7" "row - i + 3 < 6" "0 \<le> col + i - 3" by simp_all
    then have im: "i \<le> m'" by (simp add: m'_def)
    have "run4 ?p (map (\<lambda>i. ?b (row - m' + int i) (col + m' - int i))
          [0..<nat (min (Rows - (row - m')) (col + m' + 1))]) 0"
    proof (rule scan_finds[of "nat (m' - i)" _ "\<lambda>k. ?b (row - m' + k) (col + m' - k)"])
      have "m' - i + 4 \<le> min (Rows - (row - m')) (col + m' + 1)"
        using k im by (simp add: min_def)
      moreover have "int (nat (m' - i) + 4) = m' - i + 4" using im by simp
      ultimately show "nat (m' - i) + 4 \<le> nat (min (Rows - (row - m')) (col + m' + 1))"
        by linarith
      fix j :: nat assume "j < 4"
      from e(5)[OF this] im
      show "?b (row - m' + (int (nat (m' - i)) + int j)) (col + m' - (int (nat (m' - i)) + int j)) = ?p"
        by (simp add: algebra_simps)
    qed
    then show ?thesis by blast
  qed
  with CheckWin_run4[OF r(1) c, of g] show ?thesis unfolding m_def m'_def by blast
qed

subsection \<open>The terminal fields during play\<close>

lemma full_from_iff: "full_from b c = (\<forall>k\<in>{c..<Columns}. b 0 k \<noteq> Empty)"
proof (induction b c rule: full_from.induct)
  case (1 b c)
  show ?case
  proof (cases "c < Columns")
    case True
    then have s: "{c..<Columns} = insert c {c + 1..<Columns}" by auto
    show ?thesis
    proof (cases "b 0 c = Empty")
      case e: True
      with True show ?thesis by (auto simp: full_from.simps[of b c])
    next
      case False
      with True 1 show ?thesis unfolding s by (simp add: full_from.simps[of b c])
    qed
  next
    case False
    then show ?thesis by (simp add: full_from.simps[of b c])
  qed
qed

lemma IsBoardFull_iff: "IsBoardFull g = (\<forall>k\<in>{0..<Columns}. Board g 0 k \<noteq> Empty)"
  by (simp add: IsBoardFull_def full_from_iff)

lemma full_no_move:
  assumes "IsBoardFull g" "no_floating (Board g)"
  shows "\<not> move_ok g c"
proof
  assume ok: "move_ok g c"
  then have c: "0 \<le> c" "c < Columns" and nf: "\<not> column_full (Board g) c"
    by (simp_all add: move_ok_iff column_full_find_row)
  from assms(1) c have "Board g 0 c \<noteq> Empty" by (simp add: IsBoardFull_iff)
  with no_floating_top[OF assms(2) c] nf show False by simp
qed

lemma four_at_set_cell:
  assumes "four_at b p r k dr dc" "p \<noteq> Empty" "b row c = Empty"
  shows "four_at (set_cell b row c v) p r k dr dc"
  unfolding four_at_def
proof
  fix i :: int assume i: "i \<in> {0..<4}"
  with assms(1) have f: "0 \<le> r + i * dr \<and> r + i * dr < Rows \<and> 0 \<le> k + i * dc \<and>
      k + i * dc < Columns \<and> b (r + i * dr) (k + i * dc) = p"
    unfolding four_at_def by blast
  with assms(2,3) have "set_cell b row c v (r + i * dr) (k + i * dc) = p"
    by (auto simp: set_cell_def)
  with f show "0 \<le> r + i * dr \<and> r + i * dr < Rows \<and> 0 \<le> k + i * dc \<and>
      k + i * dc < Columns \<and> set_cell b row c v (r + i * dr) (k + i * dc) = p" by simp
qed

lemma has_four_set_cell:
  assumes "has_four b p" "p \<noteq> Empty" "b row c = Empty"
  shows "has_four (set_cell b row c v) p"
proof -
  note keep = four_at_set_cell[where b = b and row = row and c = c and v = v and p = p,
      OF _ assms(2) assms(3)]
  from assms(1) obtain r k where rk: "r \<in> {0..<Rows}" "k \<in> {0..<Columns}"
    and f: "four_at b p r k 0 1 \<or> four_at b p r k 1 0 \<or> four_at b p r k 1 1 \<or>
      four_at b p r k 1 (- 1)"
    unfolding has_four_def by blast
  from f keep have "four_at (set_cell b row c v) p r k 0 1 \<or>
    four_at (set_cell b row c v) p r k 1 0 \<or> four_at (set_cell b row c v) p r k 1 1 \<or>
    four_at (set_cell b row c v) p r k 1 (- 1)" by blast
  with rk show ?thesis unfolding has_four_def by blast
qed

lemma move_ok_win:
  assumes ok: "move_ok g c" and w: "CheckWin (after_move g c) (move_row g c) c"
  shows "Winner (after_move g c) = CurrentPlayer g" "IsOver (after_move g c)"
    "IsDraw (after_move g c) = IsDraw g"
proof -
  from w have "CheckWin (placed g (move_row g c) c) (move_row g c) c"
    using CheckWin_Board[OF move_ok_Board_placed[OF ok]] by simp
  then have "after_move g c = (placed g (move_row g c) c)\<lparr>Winner := CurrentPlayer g, IsOver := True\<rparr>"
    by (simp add: move_ok_after[OF ok] Let_def)
  then show "Winner (after_move g c) = CurrentPlayer g" "IsOver (after_move g c)"
    "IsDraw (after_move g c) = IsDraw g" by (simp_all add: placed_def)
qed

lemma move_ok_full:
  assumes ok: "move_ok g c" and w: "\<not> CheckWin (after_move g c) (move_row g c) c"
    and f: "IsBoardFull (after_move g c)"
  shows "IsDraw (after_move g c)" "IsOver (after_move g c)"
    "Winner (after_move g c) = Winner g"
proof -
  from w have 1: "\<not> CheckWin (placed g (move_row g c) c) (move_row g c) c"
    using CheckWin_Board[OF move_ok_Board_placed[OF ok]] by simp
  from f have 2: "IsBoardFull (placed g (move_row g c) c)"
    using IsBoardFull_Board[OF move_ok_Board_placed[OF ok]] by simp
  from 1 2 have "after_move g c = (placed g (move_row g c) c)\<lparr>IsDraw := True, IsOver := True\<rparr>"
    by (simp add: move_ok_after[OF ok] Let_def)
  then show "IsDraw (after_move g c)" "IsOver (after_move g c)"
    "Winner (after_move g c) = Winner g" by (simp_all add: placed_def)
qed

lemma move_ok_neither:
  assumes ok: "move_ok g c" and w: "\<not> CheckWin (after_move g c) (move_row g c) c"
    and f: "\<not> IsBoardFull (after_move g c)"
  shows "IsDraw (after_move g c) = IsDraw g" "IsOver (after_move g c) = IsOver g"
    "Winner (after_move g c) = Winner g"
proof -
  from w have 1: "\<not> CheckWin (placed g (move_row g c) c) (move_row g c) c"
    using CheckWin_Board[OF move_ok_Board_placed[OF ok]] by simp
  from f have 2: "\<not> IsBoardFull (placed g (move_row g c) c)"
    using IsBoardFull_Board[OF move_ok_Board_placed[OF ok]] by simp
  from 1 2 have "after_move g c = (placed g (move_row g c) c)
      \<lparr>CurrentPlayer := (if CurrentPlayer g = Player1 then Player2 else Player1)\<rparr>"
    by (simp add: move_ok_after[OF ok] Let_def)
  then show "IsDraw (after_move g c) = IsDraw g" "IsOver (after_move g c) = IsOver g"
    "Winner (after_move g c) = Winner g" by (simp_all add: placed_def)
qed

lemma move_ok_terminal_ok:
  assumes ok: "move_ok g c" and po: "player_ok g" and nf: "no_floating (Board g)"
    and t: "terminal_ok g"
  shows "terminal_ok (after_move g c)"
proof -
  let ?g' = "after_move g c" and ?row = "move_row g c"
  note low = move_ok_lowest[OF ok]
  from ok have c: "0 \<le> c" "c < Columns" by (simp_all add: move_ok_iff)
  have nd: "\<not> IsDraw g" using t full_no_move[OF _ nf, of c] ok by (auto simp: terminal_ok_def)
  from po have cp: "CurrentPlayer g = Player1 \<or> CurrentPlayer g = Player2"
    by (simp add: player_ok_def)
  have cell: "Board ?g' ?row c = CurrentPlayer g"
    by (simp add: move_ok_Board[OF ok] set_cell_def)
  have keep: "has_four (Board ?g') (Winner g)" if "Winner g \<noteq> 0"
    using that t
      has_four_set_cell[where b = "Board g" and row = "move_row g c" and c = c and p = "Winner g"
        and v = "CurrentPlayer g", OF _ _ low(3)]
    by (simp add: terminal_ok_def move_ok_Board[OF ok])
  show ?thesis
  proof (cases "CheckWin ?g' ?row c")
    case True
    from CheckWin_sound[OF low(1,2) c True] cell
    have "has_four (Board ?g') (CurrentPlayer g)" by simp
    with move_ok_win[OF ok True] nd cp show ?thesis by (auto simp: terminal_ok_def)
  next
    case False
    show ?thesis
    proof (cases "IsBoardFull ?g'")
      case True
      with move_ok_full[OF ok False True] keep t show ?thesis by (auto simp: terminal_ok_def)
    next
      case nfull: False
      with move_ok_neither[OF ok False nfull] keep t nd show ?thesis
        by (auto simp: terminal_ok_def)
    qed
  qed
qed

lemma play_terminal_ok:
  "all_ok g0 cs \<Longrightarrow> player_ok g0 \<Longrightarrow> no_floating (Board g0) \<Longrightarrow> terminal_ok g0 \<Longrightarrow>
     terminal_ok (moves_on g0 cs)"
proof (induction cs arbitrary: g0)
  case Nil
  then show ?case by simp
next
  case (Cons c cs)
  from Cons.prems(1) have ok: "move_ok g0 c" and rest: "all_ok (after_move g0 c) cs" by simp_all
  from Cons.IH[OF rest move_ok_player_ok[OF ok Cons.prems(2)]
      move_ok_no_floating[OF ok Cons.prems(2,3)] move_ok_terminal_ok[OF ok Cons.prems(2,3,4)]]
  show ?case by simp
qed

lemma reachable_terminal_ok:
  assumes "all_ok (NewGame gid p1ID p1Name p2ID p2Name isBot) cs"
  shows "terminal_ok (moves_on (NewGame gid p1ID p1Name p2ID p2Name isBot) cs)"
proof -
  have "terminal_ok (NewGame gid p1ID p1Name p2ID p2Name isBot)"
    by (simp add: terminal_ok_def NewGame_def)
  from play_terminal_ok[OF assms NewGame_invariant this] show ?thesis .
qed

section \<open>Win before draw\<close>

text \<open>
  Claim C3. In a game reached from \<open>NewGame\<close> by successful moves, a further successful
  move is evaluated with the win check first. If \<open>CheckWin\<close> holds at the cell played,
  the mover is the winner and the game is over and not a draw, whether or not the
  board is full; in particular this is so when the disc played is one of four equal
  discs in a line. If \<open>CheckWin\<close> fails and the board is full, the game is a draw, it is
  over, and the move sets no winner; in particular, when the full board holds no four in
  a row of either player, the game is a draw and has no winner.
\<close>

theorem win_before_draw:
  assumes "all_ok (NewGame gid p1ID p1Name p2ID p2Name isBot) cs"
    and "g = moves_on (NewGame gid p1ID p1Name p2ID p2Name isBot) cs"
    and "move_ok g c"
  shows "(CheckWin (after_move g c) (move_row g c) c \<longrightarrow>
            Winner (after_move g c) = CurrentPlayer g \<and> IsOver (after_move g c) \<and>
            \<not> IsDraw (after_move g c)) \<and>
         (four_through (Board (after_move g c)) (move_row g c) c \<longrightarrow>
            Winner (after_move g c) = CurrentPlayer g \<and> IsOver (after_move g c) \<and>
            \<not> IsDraw (after_move g c)) \<and>
         (\<not> CheckWin (after_move g c) (move_row g c) c \<and> IsBoardFull (after_move g c) \<longrightarrow>
            IsDraw (after_move g c) \<and> IsOver (after_move g c) \<and>
            Winner (after_move g c) = Winner g) \<and>
         (IsBoardFull (after_move g c) \<and> \<not> has_four (Board (after_move g c)) Player1 \<and>
          \<not> has_four (Board (after_move g c)) Player2 \<longrightarrow>
            IsDraw (after_move g c) \<and> IsOver (after_move g c) \<and> Winner (after_move g c) = 0)"
proof -
  let ?g' = "after_move g c" and ?row = "move_row g c"
  note ok = assms(3)
  from reachable_invariant[OF assms(1)] reachable_terminal_ok[OF assms(1)] assms(2)
  have po: "player_ok g" and nf: "no_floating (Board g)" and t: "terminal_ok g" by simp_all
  note low = move_ok_lowest[OF ok]
  from ok have c: "0 \<le> c" "c < Columns" by (simp_all add: move_ok_iff)
  have nd: "\<not> IsDraw g" using t full_no_move[OF _ nf, of c] ok by (auto simp: terminal_ok_def)
  from po have cp: "CurrentPlayer g = Player1 \<or> CurrentPlayer g = Player2"
    by (simp add: player_ok_def)
  have cell: "Board ?g' ?row c = CurrentPlayer g"
    by (simp add: move_ok_Board[OF ok] set_cell_def)
  have a: "Winner ?g' = CurrentPlayer g \<and> IsOver ?g' \<and> \<not> IsDraw ?g'" if "CheckWin ?g' ?row c"
    using move_ok_win[OF ok that] nd by simp
  have b: "CheckWin ?g' ?row c" if "four_through (Board ?g') ?row c"
    using CheckWin_complete[OF low(1,2) c that] .
  have d: "IsDraw ?g' \<and> IsOver ?g' \<and> Winner ?g' = Winner g"
    if "\<not> CheckWin ?g' ?row c" "IsBoardFull ?g'"
    using move_ok_full[OF ok that] by simp
  have e: "IsDraw ?g' \<and> IsOver ?g' \<and> Winner ?g' = 0"
    if f: "IsBoardFull ?g'" and n1: "\<not> has_four (Board ?g') Player1"
      and n2: "\<not> has_four (Board ?g') Player2"
  proof -
    have nw: "\<not> CheckWin ?g' ?row c"
    proof
      assume "CheckWin ?g' ?row c"
      from CheckWin_sound[OF low(1,2) c this] cell cp n1 n2 show False by auto
    qed
    from move_ok_terminal_ok[OF ok po nf t] n1 n2 have "Winner ?g' = 0"
      by (auto simp: terminal_ok_def)
    with move_ok_full[OF ok nw f] show ?thesis by simp
  qed
  from a b d e show ?thesis by blast
qed

lemma moves_on_append: "moves_on g (cs @ [c]) = after_move (moves_on g cs) c"
  by (induction cs arbitrary: g) simp_all

lemma all_ok_append: "all_ok g (cs @ [c]) = (all_ok g cs \<and> move_ok (moves_on g cs) c)"
  by (induction cs arbitrary: g) auto

subsection \<open>A new four in a row passes through the disc played\<close>

lemma four_at_set_cell_cases:
  assumes f: "four_at (set_cell b row c v) p r k dr dc"
  shows "four_at b p r k dr dc \<or>
     (p = v \<and> (\<exists>i\<in>{0..<4}. r + i * dr = row \<and> k + i * dc = c))"
proof (cases "\<exists>i\<in>{0..<4}. r + i * dr = row \<and> k + i * dc = c")
  case True
  then obtain i :: int where i: "i \<in> {0..<4}" "r + i * dr = row" "k + i * dc = c" by blast
  from f i(1) have "set_cell b row c v (r + i * dr) (k + i * dc) = p"
    unfolding four_at_def by blast
  with i(2,3) have "p = v" by (simp add: set_cell_def)
  with True show ?thesis by blast
next
  case False
  have "four_at b p r k dr dc"
    unfolding four_at_def
  proof
    fix i :: int assume i: "i \<in> {0..<4}"
    with f have g: "0 \<le> r + i * dr \<and> r + i * dr < Rows \<and> 0 \<le> k + i * dc \<and>
      k + i * dc < Columns \<and> set_cell b row c v (r + i * dr) (k + i * dc) = p"
      unfolding four_at_def by blast
    from False i have "\<not> (r + i * dr = row \<and> k + i * dc = c)" by blast
    then have "set_cell b row c v (r + i * dr) (k + i * dc) = b (r + i * dr) (k + i * dc)"
      by (auto simp: set_cell_def)
    with g show "0 \<le> r + i * dr \<and> r + i * dr < Rows \<and> 0 \<le> k + i * dc \<and>
      k + i * dc < Columns \<and> b (r + i * dr) (k + i * dc) = p" by simp
  qed
  then show ?thesis by blast
qed

lemma has_four_set_cell_cases:
  assumes h: "has_four (set_cell b row c v) p"
  shows "has_four b p \<or> (p = v \<and> four_through (set_cell b row c v) row c)"
proof -
  let ?b' = "set_cell b row c v"
  have cell: "?b' row c = v" by (simp add: set_cell_def)
  from h obtain r k where rk: "r \<in> {0..<Rows}" "k \<in> {0..<Columns}"
    and f: "four_at ?b' p r k 0 1 \<or> four_at ?b' p r k 1 0 \<or> four_at ?b' p r k 1 1 \<or>
      four_at ?b' p r k 1 (- 1)"
    unfolding has_four_def by blast
  show ?thesis
  proof (cases "has_four b p")
    case True
    then show ?thesis by blast
  next
    case False
    with rk have no: "\<not> four_at b p r k 0 1" "\<not> four_at b p r k 1 0" "\<not> four_at b p r k 1 1"
      "\<not> four_at b p r k 1 (- 1)"
      unfolding has_four_def by blast+
    from f consider (h) "four_at ?b' p r k 0 1" | (v) "four_at ?b' p r k 1 0"
      | (d) "four_at ?b' p r k 1 1" | (a) "four_at ?b' p r k 1 (- 1)" by blast
    then have "p = v \<and> four_through ?b' row c"
    proof cases
      case h
      from four_at_set_cell_cases[OF h] no(1) obtain i :: int
        where i: "p = v" "i \<in> {0..<4}" "r + i * 0 = row" "k + i * 1 = c" by blast
      then have "r = row" "k = c - i" by simp_all
      with h i(1) have "four_at ?b' (?b' row c) row (c - i) 0 1" by (simp add: cell)
      with i(1,2) show ?thesis unfolding four_through_def by blast
    next
      case v
      from four_at_set_cell_cases[OF v] no(2) obtain i :: int
        where i: "p = v" "i \<in> {0..<4}" "r + i * 1 = row" "k + i * 0 = c" by blast
      then have "r = row - i" "k = c" by simp_all
      with v i(1) have "four_at ?b' (?b' row c) (row - i) c 1 0" by (simp add: cell)
      with i(1,2) show ?thesis unfolding four_through_def by blast
    next
      case d
      from four_at_set_cell_cases[OF d] no(3) obtain i :: int
        where i: "p = v" "i \<in> {0..<4}" "r + i * 1 = row" "k + i * 1 = c" by blast
      then have "r = row - i" "k = c - i" by simp_all
      with d i(1) have "four_at ?b' (?b' row c) (row - i) (c - i) 1 1" by (simp add: cell)
      with i(1,2) show ?thesis unfolding four_through_def by blast
    next
      case a
      from four_at_set_cell_cases[OF a] no(4) obtain i :: int
        where i: "p = v" "i \<in> {0..<4}" "r + i * 1 = row" "k + i * (- 1) = c" by blast
      then have "r = row - i" "k = c + i" by simp_all
      with a i(1) have "four_at ?b' (?b' row c) (row - i) (c + i) 1 (- 1)" by (simp add: cell)
      with i(1,2) show ?thesis unfolding four_through_def by blast
    qed
    then show ?thesis by blast
  qed
qed

lemma move_ok_fours_won:
  assumes ok: "move_ok g c" and po: "player_ok g" and fw: "fours_won g"
  shows "fours_won (after_move g c)"
  unfolding fours_won_def
proof
  let ?g' = "after_move g c" and ?row = "move_row g c"
  assume h: "has_four (Board ?g') Player1 \<or> has_four (Board ?g') Player2"
  note low = move_ok_lowest[OF ok]
  from ok have c: "0 \<le> c" "c < Columns" by (simp_all add: move_ok_iff)
  from po have cp: "CurrentPlayer g \<noteq> 0" by (auto simp: player_ok_def)
  have b': "Board ?g' = set_cell (Board g) ?row c (CurrentPlayer g)" by (rule move_ok_Board[OF ok])
  from h has_four_set_cell_cases[of "Board g" ?row c "CurrentPlayer g"]
  consider (old) "has_four (Board g) Player1 \<or> has_four (Board g) Player2"
    | (new) "four_through (Board ?g') ?row c"
    unfolding b' by blast
  then show "Winner ?g' \<noteq> 0"
  proof cases
    case new
    from move_ok_win[OF ok CheckWin_complete[OF low(1,2) c new]] cp show ?thesis by simp
  next
    case old
    with fw have w: "Winner g \<noteq> 0" by (simp add: fours_won_def)
    show ?thesis
    proof (cases "CheckWin ?g' ?row c")
      case True
      from move_ok_win[OF ok True] cp show ?thesis by simp
    next
      case False
      then show ?thesis
        using move_ok_full(3)[OF ok False] move_ok_neither(3)[OF ok False] w
        by (cases "IsBoardFull ?g'") simp_all
    qed
  qed
qed

lemma play_fours_won:
  "all_ok g0 cs \<Longrightarrow> player_ok g0 \<Longrightarrow> fours_won g0 \<Longrightarrow> fours_won (moves_on g0 cs)"
proof (induction cs arbitrary: g0)
  case Nil
  then show ?case by simp
next
  case (Cons c cs)
  from Cons.prems(1) have ok: "move_ok g0 c" and rest: "all_ok (after_move g0 c) cs" by simp_all
  from Cons.IH[OF rest move_ok_player_ok[OF ok Cons.prems(2)]
      move_ok_fours_won[OF ok Cons.prems(2,3)]]
  show ?case by simp
qed

lemma zero_Board_no_four: "p \<noteq> 0 \<Longrightarrow> \<not> has_four zero_Board p"
proof
  assume p: "p \<noteq> 0" and "has_four zero_Board p"
  then obtain r k dr dc where "four_at zero_Board p r k dr dc" unfolding has_four_def by blast
  from four_atD(5)[OF this, of 0] p show False by (simp add: zero_Board_def)
qed

lemma reachable_winner_iff:
  assumes "all_ok (NewGame gid p1ID p1Name p2ID p2Name isBot) cs"
    and "g = moves_on (NewGame gid p1ID p1Name p2ID p2Name isBot) cs"
  shows "(Winner g \<noteq> 0) = (has_four (Board g) Player1 \<or> has_four (Board g) Player2)"
proof -
  have "fours_won (NewGame gid p1ID p1Name p2ID p2Name isBot)"
    using zero_Board_no_four[of 1] zero_Board_no_four[of 2]
    by (simp add: fours_won_def NewGame_def)
  from play_fours_won[OF assms(1) NewGame_invariant(1) this] assms(2)
  have 1: "fours_won g" by simp
  from reachable_terminal_ok[OF assms(1)] assms(2) have 2: "terminal_ok g" by simp
  from 1 2 show ?thesis unfolding fours_won_def terminal_ok_def by metis
qed


text \<open>
  The theorem at two games of 41 moves. In the first, \<open>Player2\<close> plays the last empty
  cell, the top of column 3, and completes four discs in that column: the board is
  full and the game is won by \<open>Player2\<close>, not drawn. In the second, the last cell is the
  top of column 0 and completes nothing: the full board holds no four in a row, and the
  game is a draw without a winner.
\<close>

theorem win_before_draw_witness:
  "all_ok start won_moves \<and> move_ok (moves_on start won_moves) 3 \<and>
   IsBoardFull (after_move (moves_on start won_moves) 3) \<and>
   CheckWin (after_move (moves_on start won_moves) 3) (move_row (moves_on start won_moves) 3) 3 \<and>
   four_through (Board (after_move (moves_on start won_moves) 3))
     (move_row (moves_on start won_moves) 3) 3 \<and>
   Winner (after_move (moves_on start won_moves) 3) = Player2 \<and>
   CurrentPlayer (moves_on start won_moves) = Player2 \<and>
   IsOver (after_move (moves_on start won_moves) 3) \<and>
   \<not> IsDraw (after_move (moves_on start won_moves) 3) \<and>
   all_ok start drawn_moves \<and> move_ok (moves_on start drawn_moves) 0 \<and>
   IsBoardFull (after_move (moves_on start drawn_moves) 0) \<and>
   \<not> CheckWin (after_move (moves_on start drawn_moves) 0)
       (move_row (moves_on start drawn_moves) 0) 0 \<and>
   \<not> has_four (Board (after_move (moves_on start drawn_moves) 0)) Player1 \<and>
   \<not> has_four (Board (after_move (moves_on start drawn_moves) 0)) Player2 \<and>
   IsDraw (after_move (moves_on start drawn_moves) 0) \<and>
   IsOver (after_move (moves_on start drawn_moves) 0) \<and>
   Winner (after_move (moves_on start drawn_moves) 0) = 0"
proof -
  define w where "w = moves_on start won_moves"
  define d where "d = moves_on start drawn_moves"
  have w0: "all_ok start won_moves" by code_simp
  have w1: "move_ok w 3" unfolding w_def by code_simp
  have w2: "IsBoardFull (after_move w 3)" unfolding w_def by code_simp
  have w3: "CheckWin (after_move w 3) (move_row w 3) 3" unfolding w_def by code_simp
  have w4: "move_row w 3 = 0" unfolding w_def by code_simp
  have w5: "map (\<lambda>r. Board (after_move w 3) r 3) [0, 1, 2, 3] = [2, 2, 2, 2]"
    unfolding w_def by code_simp
  have w6: "CurrentPlayer w = Player2" unfolding w_def by code_simp
  have "four_at (Board (after_move w 3)) (Board (after_move w 3) 0 3) 0 3 1 0"
  proof (rule four_atI)
    fix j :: nat assume "j < 4"
    then have "j = 0 \<or> j = 1 \<or> j = 2 \<or> j = 3" by auto
    with w5 show "0 \<le> 0 + int j * 1 \<and> 0 + int j * 1 < Rows \<and> 0 \<le> 3 + int j * 0 \<and>
      3 + int j * 0 < Columns \<and>
      Board (after_move w 3) (0 + int j * 1) (3 + int j * 0) = Board (after_move w 3) 0 3"
      by auto
  qed
  then have w7: "four_through (Board (after_move w 3)) (move_row w 3) 3"
    unfolding four_through_def w4 by (intro bexI[of _ 0]) simp_all
  have d0: "all_ok start drawn_moves" by code_simp
  have d1: "move_ok d 0" unfolding d_def by code_simp
  have d2: "IsBoardFull (after_move d 0)" unfolding d_def by code_simp
  have d3: "\<not> CheckWin (after_move d 0) (move_row d 0) 0" unfolding d_def by code_simp
  have d4: "Winner (after_move d 0) = 0" unfolding d_def by code_simp
  have "all_ok start (drawn_moves @ [0])" using d0 d1 by (simp add: all_ok_append d_def)
  from reachable_winner_iff[OF this[unfolded start_def] refl] d4
  have d5: "\<not> has_four (Board (after_move d 0)) Player1 \<and>
    \<not> has_four (Board (after_move d 0)) Player2"
    by (simp add: start_def moves_on_append d_def)
  note W = win_before_draw[OF w0[unfolded start_def] w_def[unfolded start_def] w1]
  note D = win_before_draw[OF d0[unfolded start_def] d_def[unfolded start_def] d1]
  from W w3 w6 have w8: "Winner (after_move w 3) = Player2 \<and> IsOver (after_move w 3) \<and>
    \<not> IsDraw (after_move w 3)" by simp
  from D d2 d5 have d6: "IsDraw (after_move d 0) \<and> IsOver (after_move d 0) \<and>
    Winner (after_move d 0) = 0" by blast
  from w0 w1 w2 w3 w6 w7 w8 d0 d1 d2 d3 d5 d6
  show ?thesis unfolding w_def [symmetric] d_def [symmetric] by blast
qed

section \<open>What a simulated win is\<close>

text \<open>
  When the game has not already been won by \<open>player\<close>, the test that \<open>GetMove\<close> makes on a
  clone holds exactly when the simulated move is valid and the win check succeeds at
  the cell it plays; and the win check succeeds whenever that cell is one of four equal
  cells in a line.
\<close>

lemma wins_on_clone_iff:
  assumes "Winner g \<noteq> player"
  shows "wins_on_clone g player col =
     (move_ok ((Clone g)\<lparr>CurrentPlayer := player\<rparr>) col \<and>
      CheckWin (after_move ((Clone g)\<lparr>CurrentPlayer := player\<rparr>) col)
        (move_row ((Clone g)\<lparr>CurrentPlayer := player\<rparr>) col) col)"
proof (cases "move_ok ((Clone g)\<lparr>CurrentPlayer := player\<rparr>) col")
  case False
  then show ?thesis by (simp add: wins_on_clone_def)
next
  case True
  let ?c = "(Clone g)\<lparr>CurrentPlayer := player\<rparr>"
  have w: "Winner ?c \<noteq> player" using assms by (simp add: Clone_fields)
  show ?thesis
  proof (cases "CheckWin (after_move ?c col) (move_row ?c col) col")
    case win: True
    from move_ok_win(1)[OF True win] True win show ?thesis by (simp add: wins_on_clone_def)
  next
    case nowin: False
    have "Winner (after_move ?c col) = Winner ?c"
      using move_ok_full(3)[OF True nowin] move_ok_neither(3)[OF True nowin] by blast
    with w True nowin show ?thesis by (simp add: wins_on_clone_def)
  qed
qed

lemma four_through_wins_on_clone:
  assumes "move_ok ((Clone g)\<lparr>CurrentPlayer := player\<rparr>) col"
    and "four_through (Board (after_move ((Clone g)\<lparr>CurrentPlayer := player\<rparr>) col))
           (move_row ((Clone g)\<lparr>CurrentPlayer := player\<rparr>) col) col"
  shows "wins_on_clone g player col"
proof -
  let ?c = "(Clone g)\<lparr>CurrentPlayer := player\<rparr>"
  note low = move_ok_lowest[OF assms(1)]
  from assms(1) have c: "0 \<le> col" "col < Columns" by (simp_all add: move_ok_iff)
  from move_ok_win(1)[OF assms(1) CheckWin_complete[OF low(1,2) c assms(2)]] assms(1)
  show ?thesis by (simp add: wins_on_clone_def)
qed

section \<open>Every writer of the board keeps discs from floating\<close>

text \<open>
  The board of a game is written by \<open>NewGame\<close>, by \<open>MakeMove\<close> and by \<open>Clone\<close> only. Each of
  them keeps the board without floating discs, whatever the current player is set to:
  so do the clones on which the bot simulates moves.
\<close>

lemma move_ok_no_floating_any_mover:
  assumes ok: "move_ok g c" and nf: "no_floating (Board g)"
  shows "no_floating (Board (after_move g c))"
proof (cases "CurrentPlayer g = Empty")
  case False
  from ok have "find_row (Board g) c (Rows - 1) \<noteq> - 1" by (simp add: move_ok_iff)
  with set_cell_no_floating[OF nf refl, of c "CurrentPlayer g"] False show ?thesis
    by (simp add: move_ok_Board[OF ok] move_ok_row[OF ok])
next
  case True
  from move_ok_lowest(3)[OF ok] True
  have "set_cell (Board g) (move_row g c) c (CurrentPlayer g) = Board g"
    by (auto simp: set_cell_def fun_eq_iff)
  with nf show ?thesis by (simp add: move_ok_Board[OF ok])
qed

lemma after_move_no_floating:
  "no_floating (Board g) \<Longrightarrow> no_floating (Board (after_move g c))"
proof (cases "move_ok g c")
  case True
  assume "no_floating (Board g)"
  with True show ?thesis by (rule move_ok_no_floating_any_mover)
next
  case False
  assume "no_floating (Board g)"
  with move_fail_unchanged[OF False] show ?thesis by (simp add: after_move_def)
qed

lemma Clone_no_floating:
  assumes "no_floating (Board g)"
  shows "no_floating (Board ((Clone g)\<lparr>CurrentPlayer := player\<rparr>))"
  using assms unfolding no_floating_def by (simp add: Clone_Board)

lemma NewGame_no_floating: "no_floating (Board (NewGame gid p1ID p1Name p2ID p2Name isBot))"
  by (rule NewGame_invariant(2))

end
